theory Spec2Isabelle
  imports Main
begin

section \<open>JavaScript values and built-ins used by blockchain.js\<close>

text \<open>
  A JavaScript number as far as the ledger uses one: an integer or \<open>NaN\<close>. The only
  arithmetic of the source on parsed numbers is one subtraction followed by one comparison
  with 300 (\<open>submitStar\<close>); on integers it is exact below \<open>2^53\<close>, and beyond that
  rounding to a double is monotone and cannot move a difference across 300, so exact
  integers decide the comparison as the doubles do. \<open>-0\<close> and \<open>+0\<close> are both \<open>Num 0\<close>.
\<close>

datatype number = NaN | Num int

fun minus_number :: "number \<Rightarrow> number \<Rightarrow> number" where
  "minus_number (Num a) (Num b) = Num (a - b)"
| "minus_number _ _ = NaN"

fun greater_number :: "number \<Rightarrow> int \<Rightarrow> bool" where
  "greater_number (Num a) k = (k < a)"
| "greater_number NaN k = False"

text \<open>
  Strings are lists of 8-bit characters (code units below 256). \<open>StrWhiteSpaceChar\<close> is
  the white space and line terminators of ECMAScript in that range: TAB, LF, VT, FF, CR,
  SP and NBSP.
\<close>

definition StrWhiteSpaceChar :: "char \<Rightarrow> bool" where
  "StrWhiteSpaceChar c = ((of_char c :: nat) \<in> set [9, 10, 11, 12, 13, 32, 160])"

definition digitValue :: "char \<Rightarrow> nat option" where
  "digitValue c =
     (let n = (of_char c :: nat) in
      if 48 \<le> n \<and> n \<le> 57 then Some (n - 48)
      else if 97 \<le> n \<and> n \<le> 122 then Some (n - 87)
      else if 65 \<le> n \<and> n \<le> 90 then Some (n - 55)
      else None)"

definition radixDigit :: "nat \<Rightarrow> char \<Rightarrow> nat option" where
  "radixDigit R c =
     (case digitValue c of
        None \<Rightarrow> None
      | Some d \<Rightarrow> if d < R then Some d else None)"

text \<open>The value of the longest prefix of radix-\<open>R\<close> digits, most significant first.\<close>

fun digitsValue :: "nat \<Rightarrow> nat \<Rightarrow> string \<Rightarrow> nat" where
  "digitsValue R acc [] = acc"
| "digitsValue R acc (c # cs) =
     (case radixDigit R c of
        None \<Rightarrow> acc
      | Some d \<Rightarrow> digitsValue R (acc * R + d) cs)"

text \<open>
  \<open>parseInt(string)\<close> with no radix argument (ECMAScript 19.2.5): skip leading white
  space, take an optional sign, take the prefix \<open>0x\<close>/\<open>0X\<close> as radix 16 and radix 10
  otherwise, read the longest prefix of digits; no digit at all gives \<open>NaN\<close>.
\<close>

definition parseInt :: "string \<Rightarrow> number" where
  "parseInt inputString =
     (let S = dropWhile StrWhiteSpaceChar inputString;
          sign = (if S \<noteq> [] \<and> hd S = CHR ''-'' then - 1 else (1::int));
          S1 = (if S \<noteq> [] \<and> (hd S = CHR ''+'' \<or> hd S = CHR ''-'') then tl S else S);
          hex = (2 \<le> length S1 \<and> (take 2 S1 = ''0x'' \<or> take 2 S1 = ''0X''));
          R = (if hex then 16 else 10);
          S2 = (if hex then drop 2 S1 else S1);
          Z = takeWhile (\<lambda>c. radixDigit R c \<noteq> None) S2
      in if Z = [] then NaN else Num (sign * int (digitsValue R 0 Z)))"

text \<open>\<open>ToString\<close> of a value that is a string or \<open>undefined\<close> (\<open>None\<close>).\<close>

definition ToString :: "string option \<Rightarrow> string" where
  "ToString v = (case v of None \<Rightarrow> ''undefined'' | Some s \<Rightarrow> s)"

text \<open>\<open>String.prototype.split\<close> with a one-character separator and no limit.\<close>

fun split :: "string \<Rightarrow> char \<Rightarrow> string list" where
  "split [] sep = [[]]"
| "split (c # cs) sep =
     (if c = sep then [] # split cs sep
      else (case split cs sep of
              [] \<Rightarrow> [[c]]
            | f # fs \<Rightarrow> (c # f) # fs))"

text \<open>Array indexing \<open>xs[i]\<close>: \<open>undefined\<close> (\<open>None\<close>) outside the array.\<close>

definition at :: "'a list \<Rightarrow> int \<Rightarrow> 'a option" where
  "at xs i = (if 0 \<le> i \<and> i < int (length xs) then Some (xs ! nat i) else None)"

text \<open>
  \<open>Number.prototype.toString\<close> on a non-negative integer (decimal digits; JavaScript
  prints integers below \<open>10^21\<close> this way, and \<open>Date\<close> values stay below \<open>8.64 * 10^15\<close>),
  and \<open>s.slice(0, -k)\<close>.
\<close>

definition digitChar :: "nat \<Rightarrow> char" where
  "digitChar d = ''0123456789'' ! d"

fun toString :: "nat \<Rightarrow> string" where
  "toString n = (if n < 10 then [digitChar n] else toString (n div 10) @ [digitChar (n mod 10)])"

declare toString.simps [simp del]

definition slice0 :: "string \<Rightarrow> nat \<Rightarrow> string" where
  "slice0 s k = take (length s - k) s"

text \<open>
  \<open>new Date().getTime().toString().slice(0, -3)\<close>: the clock, read in milliseconds,
  printed and cut to seconds. The clock reading is an input of the model.
\<close>

definition timestamp :: "nat \<Rightarrow> string" where
  "timestamp now = slice0 (toString now) 3"

section \<open>Blocks\<close>

record block =
  hash :: "string option"
  height :: int
  body :: string
  time :: string
  previousBlockHash :: "string option"

text \<open>
  The data handed to the \<open>Block\<close> constructor: \<open>{data: 'Genesis Block'}\<close> or
  \<open>{owner: address, data: star}\<close>. A star is any value of the caller (\<open>'s\<close>).
\<close>

datatype 's datum = Text string | Star 's

record 's payload =
  owner :: "string option"
  data :: "'s datum"

text \<open>
  The libraries the source calls: \<open>SHA256(x).toString()\<close> of crypto-js,
  \<open>JSON.stringify\<close> on a block object, \<open>bitcoinMessage.verify(message, address,
  signature)\<close> of bitcoinjs-message, which returns a boolean or throws (\<open>Inl\<close> the
  message of the exception), and the serialisation of a payload into a block body with
  its decoding.
\<close>

record 's lib =
  SHA256 :: "string \<Rightarrow> string"
  stringify :: "block \<Rightarrow> string"
  verify :: "string \<Rightarrow> string \<Rightarrow> string \<Rightarrow> string + bool"
  encode :: "'s payload \<Rightarrow> string"
  decode :: "string \<Rightarrow> 's payload option"

datatype error =
    ChainInvalid
  | MessageTimedOut
  | CouldntVerify
  | Thrown string
  | TypeError
  | DecodeError

text \<open>
  Modelled from the spec: the class \<open>Block\<close> of block.js, which is not among the
  sources. A block is created unsealed, with no hash and no previous hash, its payload
  stored in serialised form (spec, sections 3 and 4.1); height and time are assigned by
  the append.
\<close>

definition Block :: "'s lib \<Rightarrow> 's payload \<Rightarrow> block" where
  "Block L d = \<lparr>hash = None, height = 0, body = encode L d, time = [], previousBlockHash = None\<rparr>"

text \<open>
  Modelled from the spec: \<open>Block.validate\<close> (\<open>verifySelf\<close>, section 4.1), missing with
  block.js: recompute the digest from the stored fields minus \<open>hash\<close> and compare.
\<close>

definition validate :: "'s lib \<Rightarrow> block \<Rightarrow> bool" where
  "validate L b = (hash b = Some (SHA256 L (stringify L (b\<lparr>hash := None\<rparr>))))"

text \<open>
  Modelled from the spec: \<open>Block.getBData\<close> (\<open>decodePayload\<close>, section 4.1), missing
  with block.js: the decoded payload, or \<open>DecodeError\<close> when the body is malformed.
\<close>

definition getBData :: "'s lib \<Rightarrow> block \<Rightarrow> error + 's payload" where
  "getBData L b = (case decode L (body b) of None \<Rightarrow> Inl DecodeError | Some p \<Rightarrow> Inr p)"

section \<open>The Blockchain class\<close>

text \<open>
  The object state: \<open>this.chain\<close> and \<open>this.height\<close>. In this section every method is
  run to completion (the promises of the source are collapsed); a method returns its
  outcome together with the state it leaves behind, also when it throws. Calls that are in
  flight together are the subject of a later section, which reuses the parts of the
  methods that lie between two \<open>await\<close>s.
\<close>

record blockchain =
  chain :: "block list"
  this_height :: int

text \<open>
  The entries of \<open>errorLog\<close>: \<open>InvalidBlock h\<close> is
  \<open>Error(`The block with hash ${h} is invalid`)\<close> and \<open>InvalidPrevious h\<close> is
  \<open>Error(`The block with hash ${h} has an invalid previous block hash`)\<close>.
\<close>

datatype validation_error =
    InvalidBlock "string option"
  | InvalidPrevious "string option"

text \<open>
  The body of the loop of \<open>validateChain\<close> after its \<open>await\<close>, for position \<open>i\<close>:
  \<open>ok\<close> is what \<open>chain[i].validate()\<close> resolved with. Reading a field of \<open>chain[i]\<close>
  or \<open>chain[i - 1]\<close> when that element is \<open>undefined\<close> throws a TypeError.
\<close>

definition validateChain_step ::
  "blockchain \<Rightarrow> int \<Rightarrow> bool \<Rightarrow> validation_error list \<Rightarrow> error + validation_error list" where
  "validateChain_step this i ok errorLog =
     (case at (chain this) i of
        None \<Rightarrow> Inl TypeError
      | Some b \<Rightarrow>
          (let errorLog1 = (if \<not> ok then errorLog @ [InvalidBlock (hash b)] else errorLog)
           in case at (chain this) (i - 1) of
                None \<Rightarrow> Inl TypeError
              | Some p \<Rightarrow>
                  Inr (if previousBlockHash b \<noteq> hash p
                       then errorLog1 @ [InvalidPrevious (hash b)] else errorLog1)))"

text \<open>The loop of \<open>validateChain\<close>, from \<open>i\<close> with the log so far.\<close>

function validateChain_loop ::
  "'s lib \<Rightarrow> blockchain \<Rightarrow> int \<Rightarrow> validation_error list \<Rightarrow> error + validation_error list" where
  "validateChain_loop L this i errorLog =
     (if i \<le> this_height this then
        (case at (chain this) i of
           None \<Rightarrow> Inl TypeError
         | Some b \<Rightarrow>
             (case validateChain_step this i (validate L b) errorLog of
                Inl e \<Rightarrow> Inl e
              | Inr errorLog' \<Rightarrow> validateChain_loop L this (i + 1) errorLog'))
      else Inr errorLog)"
  by pat_completeness auto
termination
  by (relation "measure (\<lambda>(L, this, i, errorLog). nat (this_height this + 1 - i))") auto

declare validateChain_loop.simps [simp del]

definition validateChain :: "'s lib \<Rightarrow> blockchain \<Rightarrow> error + validation_error list" where
  "validateChain L this = validateChain_loop L this 1 []"

text \<open>
  \<open>_addBlock(block)\<close> at clock reading \<open>now\<close>. The source mutates the block it is given
  and returns nothing; the model returns the block as mutated, which is the object
  \<open>submitStar\<close> resolves with. \<open>addBlock_resume\<close> is the method after its \<open>await\<close>, with
  the errors \<open>validateChain\<close> resolved with.
\<close>

definition addBlock_resume ::
  "'s lib \<Rightarrow> nat \<Rightarrow> block \<Rightarrow> validation_error list \<Rightarrow> blockchain
     \<Rightarrow> (error + block) \<times> blockchain" where
  "addBlock_resume L now block chainErrors this =
     (if 0 < length chainErrors then (Inl ChainInvalid, this)
      else
        (let this1 = this\<lparr>this_height := this_height this + 1\<rparr>;
             block1 = block\<lparr>height := this_height this1, time := timestamp now\<rparr>
         in case (if 0 < this_height this1
                  then (case at (chain this1) (this_height this1 - 1) of
                          None \<Rightarrow> Inl TypeError
                        | Some p \<Rightarrow> Inr (block1\<lparr>previousBlockHash := hash p\<rparr>))
                  else Inr block1) of
              Inl e \<Rightarrow> (Inl e, this1)
            | Inr block2 \<Rightarrow>
                (let block3 = block2\<lparr>hash := Some (SHA256 L (stringify L block2))\<rparr>
                 in (Inr block3, this1\<lparr>chain := chain this1 @ [block3]\<rparr>))))"

definition addBlock ::
  "'s lib \<Rightarrow> nat \<Rightarrow> block \<Rightarrow> blockchain \<Rightarrow> (error + block) \<times> blockchain" where
  "addBlock L now block this =
     (case validateChain L this of
        Inl e \<Rightarrow> (Inl e, this)
      | Inr chainErrors \<Rightarrow> addBlock_resume L now block chainErrors this)"

text \<open>
  \<open>initializeChain()\<close> at clock reading \<open>now\<close>, run to completion.
\<close>

definition initializeChain ::
  "'s lib \<Rightarrow> nat \<Rightarrow> blockchain \<Rightarrow> (error + unit) \<times> blockchain" where
  "initializeChain L now this =
     (if this_height this = - 1 then
        (case addBlock L now (Block L \<lparr>owner = None, data = Text ''Genesis Block''\<rparr>) this of
           (Inl e, this') \<Rightarrow> (Inl e, this')
         | (Inr b, this') \<Rightarrow> (Inr (), this'))
      else (Inr (), this))"

text \<open>
  The constructor sets the empty chain and the height \<open>-1\<close> and calls
  \<open>initializeChain()\<close> without awaiting it: the object it returns is still empty, with
  the append of the genesis block pending. The constructor itself is therefore defined
  with the calls in flight, below. \<open>initialized\<close> is the object once that pending
  initialization has run to its end, no other call having run before.
\<close>

definition initialized :: "'s lib \<Rightarrow> nat \<Rightarrow> blockchain" where
  "initialized L now = snd (initializeChain L now \<lparr>chain = [], this_height = - 1\<rparr>)"

definition getChainHeight :: "blockchain \<Rightarrow> int" where
  "getChainHeight this = this_height this"

definition requestMessageOwnershipVerification :: "nat \<Rightarrow> string \<Rightarrow> string" where
  "requestMessageOwnershipVerification now address =
     address @ '':'' @ timestamp now @ '':starRegistry''"

text \<open>
  \<open>submitStar(address, message, signature, star)\<close>. The clock is read twice: \<open>now\<close> for
  \<open>currentTime\<close>, and \<open>now'\<close> by the append for the time of the block.
\<close>

definition messageTime :: "string \<Rightarrow> number" where
  "messageTime message = parseInt (ToString (at (split message CHR '':'') 1))"

definition currentTime :: "nat \<Rightarrow> number" where
  "currentTime now = parseInt (timestamp now)"

definition submitStar ::
  "'s lib \<Rightarrow> nat \<Rightarrow> nat \<Rightarrow> string \<Rightarrow> string \<Rightarrow> string \<Rightarrow> 's \<Rightarrow> blockchain
     \<Rightarrow> (error + block) \<times> blockchain" where
  "submitStar L now now' address message signature star this =
     (if greater_number (minus_number (currentTime now) (messageTime message)) 300
      then (Inl MessageTimedOut, this)
      else (case verify L message address signature of
              Inl e \<Rightarrow> (Inl (Thrown e), this)
            | Inr ok \<Rightarrow>
                if \<not> ok then (Inl CouldntVerify, this)
                else addBlock L now' (Block L \<lparr>owner = Some address, data = Star star\<rparr>) this))"

text \<open>
  \<open>Array.prototype.find\<close> with \<open>|| null\<close>, for the two lookups.
\<close>

definition getBlockByHash :: "blockchain \<Rightarrow> string option \<Rightarrow> block option" where
  "getBlockByHash this h = find (\<lambda>block. hash block = h) (chain this)"

definition getBlockByHeight :: "blockchain \<Rightarrow> int \<Rightarrow> block option" where
  "getBlockByHeight this h = find (\<lambda>block. height block = h) (chain this)"

text \<open>
  The loop of \<open>getStarsByWalletAddress\<close>, from \<open>i\<close> with the stars so far. A rejected
  \<open>getBData\<close> rejects the whole call, and so does a \<open>chain[i]\<close> that is \<open>undefined\<close>.
\<close>

function getStars_loop ::
  "'s lib \<Rightarrow> blockchain \<Rightarrow> string \<Rightarrow> int \<Rightarrow> 's payload list \<Rightarrow> error + 's payload list" where
  "getStars_loop L this address i stars =
     (if i \<le> this_height this then
        (case at (chain this) i of
           None \<Rightarrow> Inl TypeError
         | Some b \<Rightarrow>
             (case getBData L b of
                Inl e \<Rightarrow> Inl e
              | Inr blockData \<Rightarrow>
                  getStars_loop L this address (i + 1)
                    (if owner blockData = Some address then stars @ [blockData] else stars)))
      else Inr stars)"
  by pat_completeness auto
termination
  by (relation "measure (\<lambda>(L, this, address, i, stars). nat (this_height this + 1 - i))") auto

declare getStars_loop.simps [simp del]

definition getStarsByWalletAddress ::
  "'s lib \<Rightarrow> blockchain \<Rightarrow> string \<Rightarrow> error + 's payload list" where
  "getStarsByWalletAddress L this address = getStars_loop L this address 1 []"

section \<open>Specification-side definitions\<close>

text \<open>
  What the validator is expected to report, in the words of the specification: for each
  position from 1 up to the cached height, in ascending order, a corrupt-block error when
  the self-check of the block fails, then a broken-link error when its previous hash
  differs from the hash of its predecessor. Position 0 is never examined.
\<close>

definition blockErrors :: "'s lib \<Rightarrow> block list \<Rightarrow> nat \<Rightarrow> validation_error list" where
  "blockErrors L bs i =
     (if \<not> validate L (bs ! i) then [InvalidBlock (hash (bs ! i))] else []) @
     (if previousBlockHash (bs ! i) \<noteq> hash (bs ! (i - 1))
      then [InvalidPrevious (hash (bs ! i))] else [])"

definition expectedErrors :: "'s lib \<Rightarrow> blockchain \<Rightarrow> validation_error list" where
  "expectedErrors L this =
     concat (map (blockErrors L (chain this)) [1 ..< nat (this_height this + 1)])"

text \<open>
  The listing of a wallet's stars in the words of the specification: the blocks at the
  positions 1 to the cached height, each decoded, in chain order, kept when the owner is
  the address. A block that does not decode fails the listing.
\<close>

definition scanned :: "blockchain \<Rightarrow> block list" where
  "scanned this = drop 1 (take (nat (this_height this + 1)) (chain this))"

fun decodeAll :: "'s lib \<Rightarrow> block list \<Rightarrow> error + 's payload list" where
  "decodeAll L [] = Inr []"
| "decodeAll L (b # bs) =
     (case getBData L b of
        Inl e \<Rightarrow> Inl e
      | Inr p \<Rightarrow> (case decodeAll L bs of Inl e \<Rightarrow> Inl e | Inr ps \<Rightarrow> Inr (p # ps)))"

definition starsOwnedBy :: "'s lib \<Rightarrow> blockchain \<Rightarrow> string \<Rightarrow> error + 's payload list" where
  "starsOwnedBy L this address =
     (case decodeAll L (scanned this) of
        Inl e \<Rightarrow> Inl e
      | Inr ps \<Rightarrow> Inr (filter (\<lambda>p. owner p = Some address) ps))"

text \<open>
  A message whose embedded time parses to \<open>NaN\<close>: its second colon-delimited field is
  absent, or \<open>parseInt\<close> finds no number at the start of it. This is narrower than
  "not a number": a field that begins with digits, such as \<open>12abc\<close>, \<open>1.7e9\<close> or
  \<open>1699999999x\<close>, is read by \<open>parseInt\<close> as the number it begins with and is not of
  this kind.
\<close>

definition timestamp_NaN :: "string \<Rightarrow> bool" where
  "timestamp_NaN message =
     (case at (split message CHR '':'') 1 of
        None \<Rightarrow> True
      | Some field \<Rightarrow> parseInt field = NaN)"

section \<open>Runs and invariants\<close>

text \<open>
  The state the constructor starts from, and a sequence of appends that all succeed
  (\<open>None\<close> as soon as one fails), each with its clock reading and the block it is given.
\<close>

definition empty_chain :: blockchain where
  "empty_chain = \<lparr>chain = [], this_height = - 1\<rparr>"

fun appends :: "'s lib \<Rightarrow> (nat \<times> block) list \<Rightarrow> blockchain \<Rightarrow> blockchain option" where
  "appends L [] this = Some this"
| "appends L ((now, b) # rest) this =
     (case addBlock L now b this of
        (Inl e, this') \<Rightarrow> None
      | (Inr b', this') \<Rightarrow> appends L rest this')"

text \<open>
  The calls that change the chain, and a run of them from a given state: every call is
  run to completion and leaves its state to the next, whether it succeeded or failed.
\<close>

datatype 's call =
    InitializeChain nat
  | SubmitStar nat nat string string string 's

fun perform :: "'s lib \<Rightarrow> 's call \<Rightarrow> blockchain \<Rightarrow> blockchain" where
  "perform L (InitializeChain now) this = snd (initializeChain L now this)"
| "perform L (SubmitStar now now' address message signature star) this =
     snd (submitStar L now now' address message signature star this)"

definition run :: "'s lib \<Rightarrow> 's call list \<Rightarrow> blockchain \<Rightarrow> blockchain" where
  "run L cs this = foldl (\<lambda>s c. perform L c s) this cs"

text \<open>
  The block an append makes of the block it is given, when the chain is as long as the
  cached height says.
\<close>

definition seal :: "'s lib \<Rightarrow> nat \<Rightarrow> block \<Rightarrow> blockchain \<Rightarrow> block" where
  "seal L now b this =
     (let b2 = b\<lparr>height := this_height this + 1, time := timestamp now,
                 previousBlockHash :=
                   (if 0 < this_height this + 1 then hash (last (chain this))
                    else previousBlockHash b)\<rparr>
      in b2\<lparr>hash := Some (SHA256 L (stringify L b2))\<rparr>)"

text \<open>
  Properties of a state: the cached height is the length of the chain minus one; every
  block has its position as height and, past the first, the hash of its predecessor as
  previous hash; the cached height is right and the validator has nothing to report;
  every block passes its self-check.
\<close>

definition height_cached :: "blockchain \<Rightarrow> bool" where
  "height_cached this = (this_height this = int (length (chain this)) - 1)"

definition heights_linked :: "block list \<Rightarrow> bool" where
  "heights_linked bs =
     ((\<forall>i<length bs. height (bs ! i) = int i) \<and>
      (\<forall>i. 1 \<le> i \<and> i < length bs \<longrightarrow> previousBlockHash (bs ! i) = hash (bs ! (i - 1))))"

definition consistent :: "'s lib \<Rightarrow> blockchain \<Rightarrow> bool" where
  "consistent L this = (height_cached this \<and> expectedErrors L this = [])"

definition all_valid :: "'s lib \<Rightarrow> blockchain \<Rightarrow> bool" where
  "all_valid L this = (\<forall>b\<in>set (chain this). validate L b)"

section \<open>Calls in flight\<close>

text \<open>
  The methods of the source are \<open>async\<close>: a call runs without interruption up to its next
  \<open>await\<close>, is suspended there, and is resumed later, after other calls may have run
  their own segments. A task is one call of \<open>submitStar\<close> (or, further down, of
  \<open>initializeChain\<close>) with the place where it is suspended and its local variables:
  \<^item> \<open>Called\<close>: the call with its arguments (and the two clock readings it will make),
    not yet begun;
  \<^item> \<open>AwaitValidate\<close>: inside \<open>validateChain\<close>, at \<open>await this.chain[i].validate()\<close>,
    with the block being added, \<open>i\<close>, what the promise resolves with, and \<open>errorLog\<close>;
  \<^item> \<open>AwaitValidateChain\<close>: inside \<open>_addBlock\<close>, at \<open>await this.validateChain()\<close>, which
    has returned the errors;
  \<^item> \<open>AwaitAddBlock\<close>: inside \<open>submitStar\<close>, at \<open>await this._addBlock(block)\<close>, which
    has finished;
  \<^item> \<open>Resolved\<close> and \<open>Rejected\<close>: the promise of the call is settled.
\<close>

datatype 's task =
    Called nat nat string string string 's
  | AwaitValidate nat block int bool "validation_error list"
  | AwaitValidateChain nat block "validation_error list"
  | AwaitAddBlock block
  | Resolved block
  | Rejected error

text \<open>The head of the loop of \<open>validateChain\<close>: the test, and the call of \<open>validate\<close>.\<close>

definition validateChain_enter ::
  "'s lib \<Rightarrow> blockchain \<Rightarrow> nat \<Rightarrow> block \<Rightarrow> int \<Rightarrow> validation_error list \<Rightarrow> 's task" where
  "validateChain_enter L this now' block i errorLog =
     (if i \<le> this_height this then
        (case at (chain this) i of
           None \<Rightarrow> Rejected TypeError
         | Some b \<Rightarrow> AwaitValidate now' block i (validate L b) errorLog)
      else AwaitValidateChain now' block errorLog)"

text \<open>One segment of a task: from where it is suspended to its next \<open>await\<close>.\<close>

fun advance :: "'s lib \<Rightarrow> blockchain \<Rightarrow> 's task \<Rightarrow> blockchain \<times> 's task" where
  "advance L this (Called now now' address message signature star) =
     (if greater_number (minus_number (currentTime now) (messageTime message)) 300
      then (this, Rejected MessageTimedOut)
      else (case verify L message address signature of
              Inl e \<Rightarrow> (this, Rejected (Thrown e))
            | Inr ok \<Rightarrow>
                if \<not> ok then (this, Rejected CouldntVerify)
                else (this, validateChain_enter L this now'
                              (Block L \<lparr>owner = Some address, data = Star star\<rparr>) 1 [])))"
| "advance L this (AwaitValidate now' block i ok errorLog) =
     (case validateChain_step this i ok errorLog of
        Inl e \<Rightarrow> (this, Rejected e)
      | Inr errorLog' \<Rightarrow> (this, validateChain_enter L this now' block (i + 1) errorLog'))"
| "advance L this (AwaitValidateChain now' block chainErrors) =
     (case addBlock_resume L now' block chainErrors this of
        (Inl e, this') \<Rightarrow> (this', Rejected e)
      | (Inr b, this') \<Rightarrow> (this', AwaitAddBlock b))"
| "advance L this (AwaitAddBlock block) = (this, Resolved block)"
| "advance L this (Resolved block) = (this, Resolved block)"
| "advance L this (Rejected e) = (this, Rejected e)"

text \<open>
  The object with the calls in flight. A schedule names, step by step, the task that runs
  its next segment; every order is allowed, the order of the JavaScript job queue among
  them.
\<close>

definition fire ::
  "'s lib \<Rightarrow> blockchain \<times> 's task list \<Rightarrow> nat \<Rightarrow> blockchain \<times> 's task list" where
  "fire L cfg k =
     (case cfg of
        (this, ts) \<Rightarrow>
          if k < length ts
          then (case advance L this (ts ! k) of (this', t') \<Rightarrow> (this', ts[k := t']))
          else (this, ts))"

definition interleave ::
  "'s lib \<Rightarrow> nat list \<Rightarrow> blockchain \<times> 's task list \<Rightarrow> blockchain \<times> 's task list" where
  "interleave L sched cfg = foldl (fire L) cfg sched"

text \<open>
  A call of \<open>initializeChain()\<close> runs at once, before it is first suspended, the test of
  the height and, when the height is \<open>-1\<close>, the construction of the genesis block, the
  call of \<open>_addBlock\<close> and in it the call of \<open>validateChain\<close> up to the first \<open>await\<close>.
  The task it leaves goes through the places of a call of \<open>_addBlock\<close>, with the genesis
  block (its promise resolves with \<open>undefined\<close>, which \<open>Resolved\<close> does not record). When
  the height is not \<open>-1\<close> the call is over at once and leaves no task.
\<close>

definition initializeChain_begin :: "'s lib \<Rightarrow> nat \<Rightarrow> blockchain \<Rightarrow> 's task option" where
  "initializeChain_begin L now this =
     (if this_height this = - 1
      then Some (validateChain_enter L this now
                   (Block L \<lparr>owner = None, data = Text ''Genesis Block''\<rparr>) 1 [])
      else None)"

definition call_initializeChain ::
  "'s lib \<Rightarrow> nat \<Rightarrow> blockchain \<times> 's task list \<Rightarrow> blockchain \<times> 's task list" where
  "call_initializeChain L now cfg =
     (case cfg of
        (this, ts) \<Rightarrow>
          (case initializeChain_begin L now this of
             None \<Rightarrow> (this, ts)
           | Some t \<Rightarrow> (this, ts @ [t])))"

text \<open>
  The constructor: \<open>this.chain = []\<close>, \<open>this.height = -1\<close>, and \<open>this.initializeChain()\<close>,
  not awaited. It returns the object with that call in flight.
\<close>

definition Blockchain :: "'s lib \<Rightarrow> nat \<Rightarrow> blockchain \<times> 's task list" where
  "Blockchain L now = call_initializeChain L now (\<lparr>chain = [], this_height = - 1\<rparr>, [])"

text \<open>A call that passes the freshness check and the signature verification.\<close>

fun valid_call :: "'s lib \<Rightarrow> 's task \<Rightarrow> bool" where
  "valid_call L (Called now now' address message signature star) =
     (\<not> greater_number (minus_number (currentTime now) (messageTime message)) 300 \<and>
      verify L message address signature = Inr True)"
| "valid_call L _ = False"

text \<open>What holds of a task while valid calls run on a consistent chain.\<close>

fun task_ok :: "'s lib \<Rightarrow> blockchain \<Rightarrow> 's task \<Rightarrow> bool" where
  "task_ok L this (Called now now' address message signature star) =
     valid_call L (Called now now' address message signature star)"
| "task_ok L this (AwaitValidate now' block i ok errorLog) =
     (hash block = None \<and> 1 \<le> i \<and> i \<le> this_height this \<and> ok \<and> errorLog = [])"
| "task_ok L this (AwaitValidateChain now' block chainErrors) =
     (hash block = None \<and> chainErrors = [])"
| "task_ok L this (AwaitAddBlock b) = (b \<in> set (chain this))"
| "task_ok L this (Resolved b) = (b \<in> set (chain this))"
| "task_ok L this (Rejected e) = False"

text \<open>
  Bookkeeping for the proofs: a task counts 1 once its append is done, and \<open>remaining\<close>
  bounds the segments a task still has to run when the height of the chain never exceeds
  \<open>H\<close>.
\<close>

fun appended :: "'s task \<Rightarrow> nat" where
  "appended (AwaitAddBlock b) = 1"
| "appended (Resolved b) = 1"
| "appended _ = 0"

fun remaining :: "int \<Rightarrow> 's task \<Rightarrow> nat" where
  "remaining H (Called now now' address message signature star) = nat H + 3"
| "remaining H (AwaitValidate now' block i ok errorLog) = nat (H - i) + 3"
| "remaining H (AwaitValidateChain now' block chainErrors) = 2"
| "remaining H (AwaitAddBlock b) = 1"
| "remaining H (Resolved b) = 0"
| "remaining H (Rejected e) = 0"

text \<open>
  What holds of the object and the calls in flight, started on the state \<open>this0\<close>: the
  chain is consistent and extends the chain of \<open>this0\<close> by one block for each task past
  its append, and each of these blocks has its position as height.
\<close>

definition flight_invariant ::
  "'s lib \<Rightarrow> blockchain \<Rightarrow> blockchain \<times> 's task list \<Rightarrow> bool" where
  "flight_invariant L this0 cfg =
     (case cfg of
        (this, ts) \<Rightarrow>
          consistent L this \<and> (\<forall>t\<in>set ts. task_ok L this t) \<and>
          take (length (chain this0)) (chain this) = chain this0 \<and>
          length (chain this) = length (chain this0) + sum_list (map appended ts) \<and>
          (\<forall>j. length (chain this0) \<le> j \<and> j < length (chain this) \<longrightarrow>
               height (chain this ! j) = int j))"

text \<open>The settled promise of a sequential outcome.\<close>

definition settled :: "error + block \<Rightarrow> 's task" where
  "settled r = (case r of Inl e \<Rightarrow> Rejected e | Inr b \<Rightarrow> Resolved b)"

section \<open>A small library instance for running the model\<close>

text \<open>
  Stand-ins for the libraries, small enough to evaluate: the digest marks its input, the
  block is printed field by field in the order of the record, a signature is accepted
  when it is \<open>sig:\<close> followed by the address, a slash and the message, an empty
  signature makes the verification throw, and a payload is stored as owner, a bar, a tag
  and the data. Stars are strings here.
\<close>

definition optString :: "string option \<Rightarrow> string" where
  "optString v = (case v of None \<Rightarrow> ''null'' | Some s \<Rightarrow> s)"

definition exStringify :: "block \<Rightarrow> string" where
  "exStringify b =
     optString (hash b) @ '','' @ toString (nat (height b)) @ '','' @ body b @ '','' @ time b
       @ '','' @ optString (previousBlockHash b)"

definition exVerify :: "string \<Rightarrow> string \<Rightarrow> string \<Rightarrow> string + bool" where
  "exVerify message address signature =
     (if signature = [] then Inl ''Invalid signature length''
      else Inr (signature = ''sig:'' @ address @ ''/'' @ message))"

definition exEncode :: "string payload \<Rightarrow> string" where
  "exEncode p =
     (case owner p of None \<Rightarrow> [] | Some a \<Rightarrow> a) @ ''|''
       @ (case data p of Text t \<Rightarrow> CHR ''T'' # t | Star s \<Rightarrow> CHR ''S'' # s)"

definition exDecode :: "string \<Rightarrow> string payload option" where
  "exDecode s =
     (let a = takeWhile (\<lambda>c. c \<noteq> CHR ''|'') s;
          r = drop (Suc (length a)) s
      in case r of
           [] \<Rightarrow> None
         | t # d \<Rightarrow>
             if t = CHR ''T'' then Some \<lparr>owner = (if a = [] then None else Some a), data = Text d\<rparr>
             else if t = CHR ''S'' then Some \<lparr>owner = (if a = [] then None else Some a), data = Star d\<rparr>
             else None)"

definition exLib :: "string lib" where
  "exLib = \<lparr>SHA256 = (\<lambda>s. CHR ''#'' # s), stringify = exStringify, verify = exVerify,
            encode = exEncode, decode = exDecode\<rparr>"

text \<open>
  A chain built with these: the genesis block, then stars of two wallets. The hash of a
  block is the marked print of its other fields.
\<close>

definition exGenesisData :: "string payload" where
  "exGenesisData = \<lparr>owner = None, data = Text ''Genesis Block''\<rparr>"

definition exStarData :: "string payload" where
  "exStarData = \<lparr>owner = Some ''mxAddr'', data = Star ''Vega''\<rparr>"

definition exStarDataB :: "string payload" where
  "exStarDataB = \<lparr>owner = Some ''n2Addr'', data = Star ''Deneb''\<rparr>"

definition exGenesis :: block where
  "exGenesis = \<lparr>hash = Some ''#null,0,|TGenesis Block,1600000000,null'', height = 0,
     body = ''|TGenesis Block'', time = ''1600000000'', previousBlockHash = None\<rparr>"

definition exStar1 :: block where
  "exStar1 = \<lparr>hash = Some ''#null,1,mxAddr|SVega,1700000000,#null,0,|TGenesis Block,1600000000,null'',
     height = 1, body = ''mxAddr|SVega'', time = ''1700000000'',
     previousBlockHash = Some ''#null,0,|TGenesis Block,1600000000,null''\<rparr>"

definition exStar2 :: block where
  "exStar2 = \<lparr>hash = Some ''#null,2,n2Addr|SDeneb,1700000100,#null,1,mxAddr|SVega,1700000000,#null,0,|TGenesis Block,1600000000,null'',
     height = 2, body = ''n2Addr|SDeneb'', time = ''1700000100'',
     previousBlockHash = Some ''#null,1,mxAddr|SVega,1700000000,#null,0,|TGenesis Block,1600000000,null''\<rparr>"

definition exStar3 :: block where
  "exStar3 = \<lparr>hash = Some ''#null,3,mxAddr|SAltair,1700000200,#null,2,n2Addr|SDeneb,1700000100,#null,1,mxAddr|SVega,1700000000,#null,0,|TGenesis Block,1600000000,null'',
     height = 3, body = ''mxAddr|SAltair'', time = ''1700000200'',
     previousBlockHash = Some ''#null,2,n2Addr|SDeneb,1700000100,#null,1,mxAddr|SVega,1700000000,#null,0,|TGenesis Block,1600000000,null''\<rparr>"

definition exChain1 :: blockchain where
  "exChain1 = \<lparr>chain = [exGenesis], this_height = 0\<rparr>"

definition exChain2 :: blockchain where
  "exChain2 = \<lparr>chain = [exGenesis, exStar1], this_height = 1\<rparr>"

definition exChain3 :: blockchain where
  "exChain3 = \<lparr>chain = [exGenesis, exStar1, exStar2], this_height = 2\<rparr>"

definition exChain4 :: blockchain where
  "exChain4 = \<lparr>chain = [exGenesis, exStar1, exStar2, exStar3], this_height = 3\<rparr>"

text \<open>
  What becomes of the chain when \<open>initializeChain()\<close> is called a second time while the
  call made by the constructor is still pending: a second block with the genesis payload.
\<close>

definition exGenesis2 :: block where
  "exGenesis2 = \<lparr>hash = Some ''#null,1,|TGenesis Block,1600000000,#null,0,|TGenesis Block,1600000000,null'',
     height = 1, body = ''|TGenesis Block'', time = ''1600000000'',
     previousBlockHash = Some ''#null,0,|TGenesis Block,1600000000,null''\<rparr>"

definition exDoubleGenesis :: blockchain where
  "exDoubleGenesis = \<lparr>chain = [exGenesis, exGenesis2], this_height = 1\<rparr>"

text \<open>
  A chain tampered with after sealing: the payloads of blocks 0 and 1 are replaced and the
  previous hash of block 2 is forged.
\<close>

definition exTampered :: blockchain where
  "exTampered = \<lparr>chain = [exGenesis\<lparr>body := ''|TGenesis''\<rparr>, exStar1\<lparr>body := ''mxAddr|SSirius''\<rparr>,
                          exStar2\<lparr>previousBlockHash := Some ''#forged''\<rparr>, exStar3],
                 this_height = 3\<rparr>"

text \<open>
  A challenge message issued at second 1699999999 with its signature, and two calls of
  \<open>submitStar\<close> made at second 1700000000.
\<close>

definition exMessage :: string where
  "exMessage = ''mxAddr:1699999999:starRegistry''"

definition exSignature :: string where
  "exSignature = ''sig:mxAddr/mxAddr:1699999999:starRegistry''"

definition exCallA :: "string task" where
  "exCallA = Called 1700000000123 1700000000456 ''mxAddr'' exMessage exSignature ''Vega''"

definition exCallB :: "string task" where
  "exCallB = Called 1700000000123 1700000100456 ''n2Addr'' ''n2Addr:1699999999:starRegistry''
               ''sig:n2Addr/n2Addr:1699999999:starRegistry'' ''Deneb''"

section \<open>Numbers, timestamps and challenge messages\<close>

lemma digit_cases:
  "d < 10 \<Longrightarrow> d = 0 \<or> d = 1 \<or> d = 2 \<or> d = 3 \<or> d = 4 \<or> d = 5 \<or> d = 6 \<or> d = 7 \<or> d = 8 \<or> d = (9::nat)"
  by arith

lemma digitValue_digitChar:
  assumes "d < 10"
  shows "digitValue (digitChar d) = Some d"
  using digit_cases [OF assms] by (elim disjE) (simp_all add: digitChar_def digitValue_def)

lemma radixDigit_digitChar: "d < 10 \<Longrightarrow> radixDigit 10 (digitChar d) = Some d"
  by (simp add: radixDigit_def digitValue_digitChar)

lemma digitChar_plain:
  assumes "d < 10"
  shows "\<not> StrWhiteSpaceChar (digitChar d)" and "digitChar d \<noteq> CHR ''-''"
    and "digitChar d \<noteq> CHR ''+''" and "digitChar d \<noteq> CHR ''x''" and "digitChar d \<noteq> CHR ''X''"
    and "digitChar d \<noteq> CHR '':''"
  using digit_cases [OF assms] by (auto simp add: digitChar_def StrWhiteSpaceChar_def)

lemma toString_less: "n < 10 \<Longrightarrow> toString n = [digitChar n]"
  by (simp add: toString.simps [of n])

lemma toString_snoc: "10 \<le> n \<Longrightarrow> toString n = toString (n div 10) @ [digitChar (n mod 10)]"
  by (simp add: toString.simps [of n])

lemma toString_digits: "c \<in> set (toString n) \<Longrightarrow> \<exists>d<10. c = digitChar d"
proof (induction n rule: toString.induct)
  case (1 n)
  show ?case
  proof (cases "n < 10")
    case True
    with "1.prems" show ?thesis by (auto simp add: toString_less)
  next
    case False
    with "1.prems" have "c \<in> set (toString (n div 10)) \<or> c = digitChar (n mod 10)"
      by (auto simp add: toString_snoc)
    then show ?thesis
    proof
      assume "c \<in> set (toString (n div 10))"
      with False "1.IH" show ?thesis by simp
    next
      assume "c = digitChar (n mod 10)"
      moreover have "n mod 10 < 10" by simp
      ultimately show ?thesis by blast
    qed
  qed
qed

lemma toString_not_Nil: "toString n \<noteq> []"
  by (cases "n < 10") (simp_all add: toString_less toString_snoc)

lemma digitsValue_append:
  "\<forall>c\<in>set xs. radixDigit R c \<noteq> None \<Longrightarrow>
   digitsValue R acc (xs @ ys) = digitsValue R (digitsValue R acc xs) ys"
  by (induction xs arbitrary: acc) auto

lemma toString_radixDigit: "c \<in> set (toString n) \<Longrightarrow> radixDigit 10 c \<noteq> None"
  using toString_digits [of c n] by (auto simp add: radixDigit_digitChar)

lemma digitsValue_toString: "digitsValue 10 0 (toString n) = n"
proof (induction n rule: toString.induct)
  case (1 n)
  show ?case
  proof (cases "n < 10")
    case True
    then show ?thesis by (simp add: toString_less radixDigit_digitChar)
  next
    case False
    then have "digitsValue 10 0 (toString n)
        = digitsValue 10 (digitsValue 10 0 (toString (n div 10))) [digitChar (n mod 10)]"
      by (simp add: toString_snoc digitsValue_append toString_radixDigit)
    also have "\<dots> = digitsValue 10 (n div 10) [digitChar (n mod 10)]"
      using False "1.IH" by simp
    also have "\<dots> = n"
      by (simp add: radixDigit_digitChar)
    finally show ?thesis .
  qed
qed

lemma toString_plain:
  "CHR '':'' \<notin> set (toString n)" "CHR ''x'' \<notin> set (toString n)"
  "CHR ''X'' \<notin> set (toString n)"
proof -
  have "\<And>c. c \<in> set (toString n) \<Longrightarrow> c \<noteq> CHR '':'' \<and> c \<noteq> CHR ''x'' \<and> c \<noteq> CHR ''X''"
  proof -
    fix c
    assume "c \<in> set (toString n)"
    then obtain d where "d < 10" and "c = digitChar d"
      using toString_digits by blast
    then show "c \<noteq> CHR '':'' \<and> c \<noteq> CHR ''x'' \<and> c \<noteq> CHR ''X''"
      by (simp add: digitChar_plain)
  qed
  then show "CHR '':'' \<notin> set (toString n)" "CHR ''x'' \<notin> set (toString n)"
    "CHR ''X'' \<notin> set (toString n)"
    by blast+
qed

lemma parseInt_plain:
  assumes "s \<noteq> []" and "\<not> StrWhiteSpaceChar (hd s)" and "hd s \<noteq> CHR ''-''"
    and "hd s \<noteq> CHR ''+''" and "take 2 s \<noteq> ''0x''" and "take 2 s \<noteq> ''0X''"
  shows "parseInt s =
     (if takeWhile (\<lambda>c. radixDigit 10 c \<noteq> None) s = [] then NaN
      else Num (int (digitsValue 10 0 (takeWhile (\<lambda>c. radixDigit 10 c \<noteq> None) s))))"
proof -
  from assms(1,2) have d: "dropWhile StrWhiteSpaceChar s = s"
    by (cases s) simp_all
  show ?thesis
    unfolding parseInt_def d using assms by (simp add: Let_def)
qed

lemma parseInt_toString: "parseInt (toString n) = Num (int n)"
proof -
  obtain c cs where s: "toString n = c # cs"
    using toString_not_Nil [of n] by (cases "toString n") auto
  have c: "\<not> StrWhiteSpaceChar c" "c \<noteq> CHR ''-''" "c \<noteq> CHR ''+''"
    using toString_digits [of c n] s by (auto simp add: digitChar_plain)
  have "CHR ''x'' \<notin> set cs" and "CHR ''X'' \<notin> set cs"
    using toString_plain(2,3) [of n] by (simp_all add: s)
  then have x: "take 2 (toString n) \<noteq> ''0x''" "take 2 (toString n) \<noteq> ''0X''"
    unfolding s by (cases cs; auto)+
  have t: "takeWhile (\<lambda>c. radixDigit 10 c \<noteq> None) (toString n) = toString n"
    using toString_radixDigit [of _ n] by (simp add: takeWhile_eq_all_conv)
  have "parseInt (toString n) =
     (if takeWhile (\<lambda>c. radixDigit 10 c \<noteq> None) (toString n) = [] then NaN
      else Num (int (digitsValue 10 0 (takeWhile (\<lambda>c. radixDigit 10 c \<noteq> None) (toString n)))))"
    using c x by (intro parseInt_plain) (simp_all add: s)
  then show ?thesis
    by (simp only: t toString_not_Nil digitsValue_toString if_False)
qed

lemma timestamp_secs: "1000 \<le> now \<Longrightarrow> timestamp now = toString (now div 1000)"
proof -
  assume n: "1000 \<le> now"
  then have a: "10 \<le> now" and b: "10 \<le> now div 10" and c: "10 \<le> now div 10 div 10"
    by arith+
  have "now div 10 div 10 div 10 = now div 1000"
    by (simp add: div_mult2_eq [symmetric])
  moreover have "slice0 (toString now) 3 = toString (now div 10 div 10 div 10)"
    by (simp add: toString_snoc [OF a] toString_snoc [OF b] toString_snoc [OF c] slice0_def)
  ultimately show ?thesis by (simp add: timestamp_def)
qed

lemma currentTime_secs: "1000 \<le> now \<Longrightarrow> currentTime now = Num (int (now div 1000))"
  by (simp add: currentTime_def timestamp_secs parseInt_toString)

lemma split_no_sep: "sep \<notin> set s \<Longrightarrow> split s sep = [s]"
  by (induction s) auto

lemma split_at_sep: "sep \<notin> set a \<Longrightarrow> split (a @ sep # r) sep = a # split r sep"
  by (induction a) auto

lemma messageTime_challenge:
  assumes "CHR '':'' \<notin> set address" and "1000 \<le> issued"
  shows "messageTime (requestMessageOwnershipVerification issued address)
       = Num (int (issued div 1000))"
proof -
  have "split (requestMessageOwnershipVerification issued address) CHR '':''
      = address # toString (issued div 1000) # split ''starRegistry'' CHR '':''"
    using assms toString_plain(1) [of "issued div 1000"]
    by (simp add: requestMessageOwnershipVerification_def timestamp_secs split_at_sep)
  then show ?thesis
    by (simp add: messageTime_def at_def ToString_def parseInt_toString)
qed

lemma messageTime_absent:
  "CHR '':'' \<notin> set message \<Longrightarrow> messageTime message = NaN"
proof -
  have "parseInt ''undefined'' = NaN"
    by (simp add: parseInt_def StrWhiteSpaceChar_def radixDigit_def digitValue_def)
  then show "CHR '':'' \<notin> set message \<Longrightarrow> messageTime message = NaN"
    by (simp add: messageTime_def split_no_sep at_def ToString_def)
qed

section \<open>Validation and append\<close>

lemma validateChain_loop_eq:
  "1 \<le> i \<Longrightarrow> this_height this < int (length (chain this)) \<Longrightarrow>
   validateChain_loop L this i acc =
     Inr (acc @ concat (map (blockErrors L (chain this)) [nat i ..< nat (this_height this + 1)]))"
proof (induction L this i acc rule: validateChain_loop.induct)
  case (1 L this i errorLog)
  show ?case
  proof (cases "i \<le> this_height this")
    case False
    then show ?thesis by (simp add: validateChain_loop.simps [of L this i])
  next
    case True
    with "1.prems" have a: "at (chain this) i = Some (chain this ! nat i)"
      and b: "at (chain this) (i - 1) = Some (chain this ! nat (i - 1))"
      by (simp_all add: at_def)
    from True "1.prems" have u: "[nat i ..< nat (this_height this + 1)]
        = nat i # [nat (i + 1) ..< nat (this_height this + 1)]"
    proof -
      from True "1.prems" have "nat i < nat (this_height this + 1)" by linarith
      moreover from "1.prems" have "Suc (nat i) = nat (i + 1)" by linarith
      ultimately show ?thesis by (simp add: upt_conv_Cons)
    qed
    from "1.prems" have n: "nat (i - 1) = nat i - 1" by simp
    have s: "validateChain_step this i (validate L (chain this ! nat i)) errorLog
        = Inr (errorLog @ blockErrors L (chain this) (nat i))"
      by (simp add: validateChain_step_def a b blockErrors_def n)
    note ih = "1.IH" [OF True a s]
    show ?thesis
      using ih "1.prems"
      by (simp add: validateChain_loop.simps [of L this i] True a s u)
  qed
qed

lemma validateChain_eq:
  "this_height this < int (length (chain this)) \<Longrightarrow>
   validateChain L this = Inr (expectedErrors L this)"
  using validateChain_loop_eq [of 1 this L "[]"]
  by (simp add: validateChain_def expectedErrors_def)

lemma addBlock_cached:
  assumes "height_cached this"
  shows "addBlock L now b this =
     (if expectedErrors L this = [] then
        (Inr (seal L now b this),
         this\<lparr>this_height := this_height this + 1, chain := chain this @ [seal L now b this]\<rparr>)
      else (Inl ChainInvalid, this))"
proof -
  from assms have h: "this_height this = int (length (chain this)) - 1"
    by (simp add: height_cached_def)
  then have v: "validateChain L this = Inr (expectedErrors L this)"
    by (simp add: validateChain_eq)
  have a: "0 < this_height this + 1 \<Longrightarrow>
      at (chain this) (this_height this) = Some (last (chain this))"
    using h by (cases "chain this") (simp_all add: at_def last_conv_nth nat_diff_distrib)
  show ?thesis
    using v a by (simp add: addBlock_def addBlock_resume_def seal_def Let_def)
qed

lemma seal_fields:
  "height (seal L now b this) = this_height this + 1"
  "time (seal L now b this) = timestamp now"
  "body (seal L now b this) = body b"
  "previousBlockHash (seal L now b this) =
     (if 0 < this_height this + 1 then hash (last (chain this)) else previousBlockHash b)"
  by (simp_all add: seal_def Let_def)

lemma seal_hash:
  "hash b = None \<Longrightarrow>
   hash (seal L now b this) = Some (SHA256 L (stringify L ((seal L now b this)\<lparr>hash := None\<rparr>)))"
  by (cases b) (simp add: seal_def Let_def)

lemma seal_validate: "hash b = None \<Longrightarrow> validate L (seal L now b this)"
  by (simp add: validate_def seal_hash)

lemma addBlock_Inr:
  assumes "height_cached this" and "addBlock L now b this = (Inr b', this')"
  shows "b' = seal L now b this"
    and "this' = this\<lparr>this_height := this_height this + 1, chain := chain this @ [b']\<rparr>"
    and "expectedErrors L this = []"
  using assms(2) by (auto simp add: addBlock_cached [OF assms(1)] split: if_splits)

lemma blockErrors_append:
  "0 < i \<Longrightarrow> i < length bs \<Longrightarrow> blockErrors L (bs @ cs) i = blockErrors L bs i"
proof -
  assume "0 < i" and "i < length bs"
  then have "i - 1 < length bs" by arith
  with \<open>i < length bs\<close> show ?thesis
    by (simp add: blockErrors_def nth_append)
qed

lemma expectedErrors_snoc:
  assumes "height_cached this"
  shows "expectedErrors L (this\<lparr>this_height := this_height this + 1, chain := chain this @ [b]\<rparr>)
       = expectedErrors L this
         @ (if chain this = [] then [] else blockErrors L (chain this @ [b]) (length (chain this)))"
proof -
  from assms have h: "this_height this = int (length (chain this)) - 1"
    by (simp add: height_cached_def)
  have m: "map (blockErrors L (chain this @ [b])) [Suc 0 ..< length (chain this)]
         = map (blockErrors L (chain this)) [Suc 0 ..< length (chain this)]"
    by (rule map_cong) (simp_all add: blockErrors_append)
  show ?thesis
  proof (cases "chain this = []")
    case True
    then show ?thesis using h by (simp add: expectedErrors_def)
  next
    case False
    then have "0 < length (chain this)" by simp
    then have "[1 ..< Suc (length (chain this))] = [1 ..< length (chain this)] @ [length (chain this)]"
      by (simp add: Suc_leI)
    then show ?thesis using h False
      by (simp add: expectedErrors_def nat_add_distrib m)
  qed
qed

lemma blockErrors_sealed:
  assumes "chain this \<noteq> []" and "height_cached this" and "hash b = None"
  shows "blockErrors L (chain this @ [seal L now b this]) (length (chain this)) = []"
proof -
  from assms(1,2) have "0 < this_height this + 1"
    by (simp add: height_cached_def)
  then have "previousBlockHash (seal L now b this) = hash (last (chain this))"
    by (simp add: seal_fields)
  with assms(1) show ?thesis
    by (simp add: blockErrors_def nth_append seal_validate [OF assms(3)] last_conv_nth)
qed

lemma addBlock_consistent:
  assumes "consistent L this" and "hash b = None"
  shows "addBlock L now b this =
           (Inr (seal L now b this),
            this\<lparr>this_height := this_height this + 1, chain := chain this @ [seal L now b this]\<rparr>)"
    and "consistent L (snd (addBlock L now b this))"
proof -
  from assms(1) have c: "height_cached this" and e: "expectedErrors L this = []"
    by (simp_all add: consistent_def)
  show eq: "addBlock L now b this =
           (Inr (seal L now b this),
            this\<lparr>this_height := this_height this + 1, chain := chain this @ [seal L now b this]\<rparr>)"
    by (simp add: addBlock_cached [OF c] e)
  have "height_cached (snd (addBlock L now b this))"
    using c by (simp add: eq height_cached_def)
  moreover have "expectedErrors L (snd (addBlock L now b this)) = []"
    using e by (simp add: eq expectedErrors_snoc [OF c] blockErrors_sealed [OF _ c assms(2)])
  ultimately show "consistent L (snd (addBlock L now b this))"
    by (simp add: consistent_def)
qed

lemma Block_hash: "hash (Block L d) = None"
  by (simp add: Block_def)

lemma empty_consistent: "consistent L empty_chain"
  by (simp add: consistent_def height_cached_def expectedErrors_def empty_chain_def)

lemma snd_initializeChain:
  "snd (initializeChain L now this) =
     (if this_height this = - 1
      then snd (addBlock L now (Block L \<lparr>owner = None, data = Text ''Genesis Block''\<rparr>) this)
      else this)"
  by (simp add: initializeChain_def split: prod.splits sum.splits)






section \<open>Evaluating the example chain\<close>

lemma toString_numeral:
  "toString (numeral k) =
     (if (numeral k :: nat) < 10 then [digitChar (numeral k)]
      else toString (numeral k div 10) @ [digitChar (numeral k mod 10)])"
  "toString 0 = ''0''" "toString (Suc 0) = ''1''"
  by (simp_all add: toString.simps [of "numeral k"] toString.simps [of 0]
      toString.simps [of "Suc 0"] digitChar_def)

lemmas ex_defs = exLib_def exStringify_def exVerify_def exEncode_def exDecode_def optString_def
  exGenesisData_def exStarData_def exGenesis_def exStar1_def exChain1_def exChain2_def
  exMessage_def exSignature_def empty_chain_def

lemma ex_seal1: "seal exLib 1600000000123 (Block exLib exGenesisData) empty_chain = exGenesis"
  by (simp add: seal_def Block_def ex_defs timestamp_secs toString_numeral digitChar_def)

lemma ex_seal2: "seal exLib 1700000000456 (Block exLib exStarData) exChain1 = exStar1"
  by (simp add: seal_def Block_def ex_defs timestamp_secs toString_numeral digitChar_def)

lemma ex_validate: "validate exLib exGenesis" "validate exLib exStar1"
  by (simp_all add: validate_def ex_defs toString_numeral digitChar_def)

lemma ex_errors1: "expectedErrors exLib exChain1 = []"
  by (simp add: expectedErrors_def ex_defs)

lemma ex_errors2: "expectedErrors exLib exChain2 = []"
  using ex_validate by (simp add: expectedErrors_def blockErrors_def exChain2_def exStar1_def exGenesis_def)

lemma ex_addBlock1:
  "addBlock exLib 1600000000123 (Block exLib exGenesisData) empty_chain = (Inr exGenesis, exChain1)"
proof -
  have "height_cached empty_chain"
    by (simp add: height_cached_def empty_chain_def)
  moreover have "expectedErrors exLib empty_chain = []"
    by (simp add: expectedErrors_def empty_chain_def)
  ultimately show ?thesis
    by (simp add: addBlock_cached ex_seal1) (simp add: empty_chain_def exChain1_def)
qed

lemma ex_addBlock2:
  "addBlock exLib 1700000000456 (Block exLib exStarData) exChain1 = (Inr exStar1, exChain2)"
proof -
  have "height_cached exChain1"
    by (simp add: height_cached_def exChain1_def)
  then show ?thesis
    by (simp add: addBlock_cached ex_seal2 ex_errors1) (simp add: exChain1_def exChain2_def)
qed

lemma ex_messageTime: "messageTime exMessage = Num 1699999999"
  using messageTime_challenge [of "''mxAddr''" 1699999999000]
  by (simp add: requestMessageOwnershipVerification_def timestamp_secs toString_numeral
      digitChar_def exMessage_def)

lemma ex_verify: "verify exLib exMessage ''mxAddr'' exSignature = Inr True"
  by (simp add: ex_defs)

lemma ex_submitStar:
  "submitStar exLib 1700000000123 1700000000456 ''mxAddr'' exMessage exSignature ''Vega'' exChain1
     = (Inr exStar1, exChain2)"
  using ex_addBlock2
  by (simp add: submitStar_def currentTime_secs ex_messageTime ex_verify exStarData_def)

section \<open>The chain invariant\<close>

lemma addBlock_step:
  assumes "height_cached this" and "addBlock L now b this = (Inr b', this')"
  shows "height_cached this'" and "chain this' = chain this @ [b']"
    and "height b' = int (length (chain this))"
    and "chain this \<noteq> [] \<Longrightarrow> previousBlockHash b' = hash (last (chain this))"
proof -
  note r = addBlock_Inr [OF assms]
  from assms(1) have h: "this_height this = int (length (chain this)) - 1"
    by (simp add: height_cached_def)
  show "chain this' = chain this @ [b']"
    by (simp add: r(2))
  show "height_cached this'"
    using h by (simp add: r(2) height_cached_def)
  show "height b' = int (length (chain this))"
    using h by (simp add: r(1) seal_fields)
  show "chain this \<noteq> [] \<Longrightarrow> previousBlockHash b' = hash (last (chain this))"
    using h by (simp add: r(1) seal_fields)
qed

lemma heights_linked_snoc:
  assumes "heights_linked bs" and "height b = int (length bs)"
    and "bs \<noteq> [] \<Longrightarrow> previousBlockHash b = hash (last bs)"
  shows "heights_linked (bs @ [b])"
proof -
  have "height ((bs @ [b]) ! i) = int i" if "i < length (bs @ [b])" for i
    using that assms(1,2) by (cases "i < length bs") (auto simp add: heights_linked_def nth_append)
  moreover have "previousBlockHash ((bs @ [b]) ! i) = hash ((bs @ [b]) ! (i - 1))"
    if "1 \<le> i" and "i < length (bs @ [b])" for i
  proof (cases "i < length bs")
    case True
    with that assms(1) show ?thesis
      by (auto simp add: heights_linked_def nth_append)
  next
    case False
    with that have i: "i = length bs" and n: "bs \<noteq> []" by auto
    then have "i - 1 < length bs" by (cases bs) auto
    with i n assms(3) show ?thesis
      by (simp add: nth_append last_conv_nth)
  qed
  ultimately show ?thesis
    unfolding heights_linked_def by blast
qed

lemma appends_invariant:
  assumes "appends L ops this = Some this'" and "height_cached this"
    and "heights_linked (chain this)"
  shows "height_cached this' \<and> heights_linked (chain this') \<and>
         length (chain this') = length (chain this) + length ops"
  using assms
proof (induction ops arbitrary: this)
  case Nil
  then show ?case by simp
next
  case (Cons p ops)
  obtain now b where p: "p = (now, b)" by (cases p)
  from Cons.prems(1) obtain b' this1
    where a: "addBlock L now b this = (Inr b', this1)" and r: "appends L ops this1 = Some this'"
    by (auto simp add: p split: prod.splits sum.splits)
  note s = addBlock_step [OF Cons.prems(2) a]
  have "heights_linked (chain this1)"
    unfolding s(2) using Cons.prems(3) s(3) s(4) by (rule heights_linked_snoc)
  from Cons.IH [OF r s(1) this] show ?case
    by (simp add: s(2))
qed

text \<open>
  C1. In every chain state reached from the empty chain by successful appends, the cached
  height is the length of the chain minus one (so it is \<open>n - 1\<close> after \<open>n\<close> appends, and
  it is the height field of the last block), the height field of each block is its
  position, and each block after the first stores the hash of its predecessor.
\<close>

theorem chain_invariant:
  assumes "appends L ops empty_chain = Some this"
  shows "this_height this = int (length (chain this)) - 1 \<and>
         length (chain this) = length ops \<and>
         this_height this = int (length ops) - 1 \<and>
         (chain this \<noteq> [] \<longrightarrow> height (last (chain this)) = this_height this) \<and>
         (\<forall>i<length (chain this). height (chain this ! i) = int i) \<and>
         (\<forall>i. 1 \<le> i \<and> i < length (chain this) \<longrightarrow>
              previousBlockHash (chain this ! i) = hash (chain this ! (i - 1)))"
proof -
  have "height_cached empty_chain" and "heights_linked (chain empty_chain)"
    by (simp_all add: height_cached_def heights_linked_def empty_chain_def)
  from appends_invariant [OF assms this]
  have c: "height_cached this" and l: "heights_linked (chain this)"
    and n: "length (chain this) = length ops"
    by (simp_all add: empty_chain_def)
  from c have h: "this_height this = int (length (chain this)) - 1"
    by (simp add: height_cached_def)
  have "height (last (chain this)) = this_height this" if "chain this \<noteq> []"
  proof -
    from that have "length (chain this) - 1 < length (chain this)" by simp
    with l have "height (chain this ! (length (chain this) - 1)) = int (length (chain this) - 1)"
      unfolding heights_linked_def by blast
    with that h show ?thesis
      by (simp add: last_conv_nth of_nat_diff Suc_leI)
  qed
  with h n l show ?thesis
    unfolding heights_linked_def by simp
qed

lemma ex_appends:
  "appends exLib [(1600000000123, Block exLib exGenesisData),
                  (1700000000456, Block exLib exStarData)] empty_chain = Some exChain2"
  by (simp add: ex_addBlock1 ex_addBlock2)

theorem chain_invariant_witness:
  "appends exLib [(1600000000123, Block exLib exGenesisData),
                  (1700000000456, Block exLib exStarData)] empty_chain = Some exChain2 \<and>
   this_height exChain2 = 1 \<and> length (chain exChain2) = 2 \<and>
   height (chain exChain2 ! 0) = 0 \<and> height (chain exChain2 ! 1) = 1 \<and>
   previousBlockHash (chain exChain2 ! 1) = hash (chain exChain2 ! 0)"
proof -
  note t = chain_invariant [OF ex_appends]
  from t have n: "length (chain exChain2) = 2" and c: "this_height exChain2 = 1"
    by simp_all
  from t have h: "\<forall>i<length (chain exChain2). height (chain exChain2 ! i) = int i"
    and p: "\<forall>i. 1 \<le> i \<and> i < length (chain exChain2) \<longrightarrow>
       previousBlockHash (chain exChain2 ! i) = hash (chain exChain2 ! (i - 1))"
    by blast+
  from h [rule_format, of 0] h [rule_format, of 1] p [rule_format, of 1] n c ex_appends
  show ?thesis by simp
qed

section \<open>Sealing and self-check\<close>

lemma addBlock_Block:
  assumes "addBlock L now (Block L d) this = (Inr b, this')"
  shows "b\<lparr>hash := None\<rparr> =
           \<lparr>hash = None, height = this_height this + 1, body = encode L d, time = timestamp now,
            previousBlockHash = previousBlockHash b\<rparr>"
    and "hash b = Some (SHA256 L (stringify L (b\<lparr>hash := None\<rparr>)))"
    and "chain this' = chain this @ [b]"
  using assms
  by (auto simp add: addBlock_def addBlock_resume_def Block_def Let_def split: sum.splits if_splits option.splits)

lemma addBlock_Block_chain:
  "chain (snd (addBlock L now (Block L d) this)) = chain this \<or>
   (\<exists>b. validate L b \<and> chain (snd (addBlock L now (Block L d) this)) = chain this @ [b])"
proof (cases "addBlock L now (Block L d) this")
  case (Pair r this')
  show ?thesis
  proof (cases r)
    case (Inl e)
    with Pair have "chain this' = chain this"
      by (auto simp add: addBlock_def addBlock_resume_def Let_def split: sum.splits if_splits option.splits)
    with Pair show ?thesis by simp
  next
    case (Inr b)
    with Pair addBlock_Block(2,3) [of L now d this b this'] show ?thesis
      by (simp add: validate_def)
  qed
qed

lemma addBlock_all_valid:
  "all_valid L this \<Longrightarrow> all_valid L (snd (addBlock L now (Block L d) this))"
  using addBlock_Block_chain [of L now d this] by (auto simp add: all_valid_def)

lemma perform_all_valid: "all_valid L this \<Longrightarrow> all_valid L (perform L c this)"
proof (cases c)
  case (InitializeChain now)
  assume "all_valid L this"
  then show ?thesis
    by (simp add: InitializeChain snd_initializeChain addBlock_all_valid)
next
  case (SubmitStar now now' address message signature star)
  assume "all_valid L this"
  then show ?thesis
    by (simp add: SubmitStar submitStar_def addBlock_all_valid split: sum.splits)
qed

lemma run_all_valid: "all_valid L this \<Longrightarrow> all_valid L (run L cs this)"
  unfolding run_def by (induction cs arbitrary: this) (simp_all add: perform_all_valid)

lemma initialized_all_valid: "all_valid L (initialized L now)"
proof -
  have "all_valid L \<lparr>chain = [], this_height = - 1\<rparr>"
    by (simp add: all_valid_def)
  then show ?thesis
    by (simp add: initialized_def snd_initializeChain addBlock_all_valid)
qed

lemma ex_initialized: "initialized exLib 1600000000123 = exChain1"
  using ex_addBlock1
  by (simp add: initialized_def initializeChain_def empty_chain_def exGenesisData_def)

lemma ex_run:
  "run exLib [SubmitStar 1700000000123 1700000000456 ''mxAddr'' exMessage exSignature ''Vega'']
     (initialized exLib 1600000000123) = exChain2"
  by (simp add: run_def ex_initialized ex_submitStar)

text \<open>
  C2. A block sealed by an append (the append is only ever given a block fresh from
  \<open>new Block\<close>) stores as its hash the digest of its own serialisation taken with the hash
  absent and with height, time, payload and previous hash already set; so the self-check,
  which recomputes the digest from the stored fields without the hash, succeeds. Every
  block of a chain made by the initialization and any calls of \<open>initializeChain\<close> and
  \<open>submitStar\<close>, each run to its end, passes the self-check.
\<close>

theorem hash_self_consistency:
  "(addBlock L now (Block L d) this = (Inr b, this') \<longrightarrow>
      hash b = Some (SHA256 L (stringify L
          \<lparr>hash = None, height = this_height this + 1, body = encode L d, time = timestamp now,
           previousBlockHash = previousBlockHash b\<rparr>)) \<and>
      hash b = Some (SHA256 L (stringify L (b\<lparr>hash := None\<rparr>))) \<and>
      validate L b \<and> chain this' = chain this @ [b]) \<and>
   (c \<in> set (chain (run L cs (initialized L t0))) \<longrightarrow>
      hash c = Some (SHA256 L (stringify L (c\<lparr>hash := None\<rparr>))))"
proof -
  have "all_valid L (run L cs (initialized L t0))"
    by (simp add: run_all_valid initialized_all_valid)
  then have "c \<in> set (chain (run L cs (initialized L t0))) \<longrightarrow>
      hash c = Some (SHA256 L (stringify L (c\<lparr>hash := None\<rparr>)))"
    by (simp add: all_valid_def validate_def)
  moreover have "addBlock L now (Block L d) this = (Inr b, this') \<longrightarrow>
      hash b = Some (SHA256 L (stringify L
          \<lparr>hash = None, height = this_height this + 1, body = encode L d, time = timestamp now,
           previousBlockHash = previousBlockHash b\<rparr>)) \<and>
      hash b = Some (SHA256 L (stringify L (b\<lparr>hash := None\<rparr>))) \<and>
      validate L b \<and> chain this' = chain this @ [b]"
    using addBlock_Block [of L now d this b this'] by (simp add: validate_def)
  ultimately show ?thesis by blast
qed

theorem hash_self_consistency_witness:
  "addBlock exLib 1700000000456 (Block exLib exStarData) exChain1 = (Inr exStar1, exChain2) \<and>
   exStar1 \<in> set (chain (run exLib
      [SubmitStar 1700000000123 1700000000456 ''mxAddr'' exMessage exSignature ''Vega'']
      (initialized exLib 1600000000123))) \<and>
   hash exStar1 = Some (SHA256 exLib (stringify exLib
       \<lparr>hash = None, height = 1, body = ''mxAddr|SVega'', time = ''1700000000'',
        previousBlockHash = hash exGenesis\<rparr>)) \<and>
   hash exStar1 = Some (SHA256 exLib (stringify exLib (exStar1\<lparr>hash := None\<rparr>)))"
proof -
  have m: "exStar1 \<in> set (chain (run exLib
      [SubmitStar 1700000000123 1700000000456 ''mxAddr'' exMessage exSignature ''Vega'']
      (initialized exLib 1600000000123)))"
    by (simp add: ex_run exChain2_def)
  note t = hash_self_consistency [of exLib 1700000000456 exStarData exChain1 exStar1 exChain2
      exStar1 "[SubmitStar 1700000000123 1700000000456 ''mxAddr'' exMessage exSignature ''Vega'']"
      1600000000123]
  from t ex_addBlock2 m
  have "hash exStar1 = Some (SHA256 exLib (stringify exLib
          \<lparr>hash = None, height = this_height exChain1 + 1, body = encode exLib exStarData,
           time = timestamp 1700000000456, previousBlockHash = previousBlockHash exStar1\<rparr>))"
    and "hash exStar1 = Some (SHA256 exLib (stringify exLib (exStar1\<lparr>hash := None\<rparr>)))"
    by blast+
  moreover have "this_height exChain1 + 1 = 1" "encode exLib exStarData = ''mxAddr|SVega''"
    "timestamp 1700000000456 = ''1700000000''" "previousBlockHash exStar1 = hash exGenesis"
    by (simp_all add: exChain1_def exStarData_def exLib_def exEncode_def timestamp_secs
        toString_numeral digitChar_def exStar1_def exGenesis_def)
  ultimately show ?thesis
    using ex_addBlock2 m by simp
qed

section \<open>The validator\<close>

text \<open>
  C3. Whenever the cached height stays inside the chain, the validator returns the whole
  list of expected errors: one pass over the positions 1 to the cached height in ascending
  order, a corrupt-block error for each failed self-check and a broken-link error for each
  previous hash that differs from the predecessor's hash, nothing for position 0, and no
  stop at the first defect. When the cached height is the length minus one, the positions
  are all those of the chain but the first.
\<close>

theorem validateChain_accumulates:
  assumes "this_height this < int (length (chain this))"
  shows "validateChain L this = Inr (expectedErrors L this) \<and>
         (this_height this = int (length (chain this)) - 1 \<longrightarrow>
            expectedErrors L this
              = concat (map (blockErrors L (chain this)) [1 ..< length (chain this)]))"
  using assms validateChain_loop_eq [of 1 this L "[]"]
  by (simp add: validateChain_def expectedErrors_def)

lemma ex_tampered_errors:
  "expectedErrors exLib exTampered =
     [InvalidBlock (hash exStar1), InvalidBlock (hash exStar2), InvalidPrevious (hash exStar2)]"
proof -
  have "[1 ..< nat (this_height exTampered + 1)] = [1, 2, 3]"
    by (simp add: exTampered_def upt_rec)
  moreover have "\<not> validate exLib (exStar1\<lparr>body := ''mxAddr|SSirius''\<rparr>)"
    and "\<not> validate exLib (exStar2\<lparr>previousBlockHash := Some ''#forged''\<rparr>)"
    and "validate exLib exStar3"
    by (simp_all add: validate_def exLib_def exStringify_def optString_def exStar1_def
        exStar2_def exStar3_def toString_numeral digitChar_def)
  ultimately show ?thesis
    by (simp add: expectedErrors_def blockErrors_def exTampered_def)
       (simp add: exGenesis_def exStar1_def exStar2_def exStar3_def)
qed

theorem validateChain_accumulates_witness:
  "this_height exTampered < int (length (chain exTampered)) \<and>
   validateChain exLib exTampered =
     Inr [InvalidBlock (hash exStar1), InvalidBlock (hash exStar2), InvalidPrevious (hash exStar2)]"
proof -
  have h: "this_height exTampered < int (length (chain exTampered))"
    by (simp add: exTampered_def)
  from validateChain_accumulates [OF h, of exLib] h show ?thesis
    by (simp add: ex_tampered_errors)
qed

section \<open>Failing submissions\<close>

lemma addBlock_failure:
  assumes "fst (addBlock L now b this) = Inl e"
    and "e \<noteq> TypeError \<or> this_height this = int (length (chain this)) - 1"
  shows "snd (addBlock L now b this) = this"
proof (cases "height_cached this")
  case True
  with assms(1) show ?thesis
    by (simp add: addBlock_cached split: if_splits)
next
  case False
  with assms(2) have "e \<noteq> TypeError"
    by (simp add: height_cached_def)
  with assms(1) show ?thesis
    by (auto simp add: addBlock_def addBlock_resume_def Let_def split: sum.splits if_splits option.splits)
qed

text \<open>
  C4. A call of \<open>submitStar\<close> that fails because the challenge has expired, because the
  signature is rejected (or the verification throws), or because the validation before
  the append found defects, leaves the chain and the height exactly as they were. (The
  only other failure of the model, a TypeError, needs a cached height that disagrees with
  the chain; when the cached height is the length minus one, every failure leaves the
  state untouched.)
\<close>

theorem submitStar_error_atomicity:
  assumes "fst (submitStar L now now' address message signature star this) = Inl e"
    and "e \<noteq> TypeError \<or> this_height this = int (length (chain this)) - 1"
  shows "snd (submitStar L now now' address message signature star this) = this"
proof (cases "submitStar L now now' address message signature star this
              = addBlock L now' (Block L \<lparr>owner = Some address, data = Star star\<rparr>) this")
  case True
  with assms show ?thesis
    by (simp add: addBlock_failure)
next
  case False
  then show ?thesis
    by (auto simp add: submitStar_def split: sum.splits if_splits)
qed

lemma ex_tampered_invalid:
  "addBlock exLib t b exTampered = (Inl ChainInvalid, exTampered)"
proof -
  have "height_cached exTampered"
    by (simp add: height_cached_def exTampered_def)
  then show ?thesis
    by (simp add: addBlock_cached ex_tampered_errors)
qed

theorem submitStar_error_atomicity_witness:
  "submitStar exLib 1700000300123 1700000300456 ''mxAddr'' exMessage exSignature ''Vega'' exChain1
     = (Inl MessageTimedOut, exChain1) \<and>
   submitStar exLib 1700000000123 1700000000456 ''mxAddr'' exMessage ''sig:forged'' ''Vega'' exChain1
     = (Inl CouldntVerify, exChain1) \<and>
   submitStar exLib 1700000000123 1700000000456 ''mxAddr'' exMessage exSignature ''Vega'' exTampered
     = (Inl ChainInvalid, exTampered)"
proof -
  have a: "fst (submitStar exLib 1700000300123 1700000300456 ''mxAddr'' exMessage exSignature
      ''Vega'' exChain1) = Inl MessageTimedOut"
    by (simp add: submitStar_def currentTime_secs ex_messageTime)
  have b: "fst (submitStar exLib 1700000000123 1700000000456 ''mxAddr'' exMessage ''sig:forged''
      ''Vega'' exChain1) = Inl CouldntVerify"
    by (simp add: submitStar_def currentTime_secs ex_messageTime)
       (simp add: exLib_def exVerify_def exMessage_def)
  have c: "fst (submitStar exLib 1700000000123 1700000000456 ''mxAddr'' exMessage exSignature
      ''Vega'' exTampered) = Inl ChainInvalid"
    by (simp add: submitStar_def currentTime_secs ex_messageTime ex_verify ex_tampered_invalid)
  from submitStar_error_atomicity [OF a] submitStar_error_atomicity [OF b]
    submitStar_error_atomicity [OF c] a b c
  show ?thesis
    by (simp add: prod_eq_iff)
qed

section \<open>The freshness window\<close>

lemma parseInt_undefined: "parseInt ''undefined'' = NaN"
  by (simp add: parseInt_def StrWhiteSpaceChar_def radixDigit_def digitValue_def)

lemma messageTime_NaN: "(messageTime message = NaN) = timestamp_NaN message"
  by (simp add: messageTime_def timestamp_NaN_def ToString_def parseInt_undefined
      split: option.splits)

lemma parseInt_no_digit:
  assumes "field = [] \<or>
     (\<not> StrWhiteSpaceChar (hd field) \<and> hd field \<noteq> CHR ''+'' \<and> hd field \<noteq> CHR ''-'' \<and>
      radixDigit 10 (hd field) = None)"
  shows "parseInt field = NaN"
proof (cases field)
  case Nil
  then show ?thesis by (simp add: parseInt_def)
next
  case (Cons c cs)
  with assms have c: "\<not> StrWhiteSpaceChar c" "c \<noteq> CHR ''+''" "c \<noteq> CHR ''-''"
    "radixDigit 10 c = None"
    by simp_all
  from c(4) have "c \<noteq> CHR ''0''"
    by (auto simp add: radixDigit_def digitValue_def)
  then have "take 2 field \<noteq> ''0x''" "take 2 field \<noteq> ''0X''"
    by (auto simp add: Cons)
  with c show ?thesis
    by (subst parseInt_plain) (simp_all add: Cons)
qed

text \<open>
  Messages that carry no time: one without a colon, one whose second field is empty, one
  whose second field starts with a character that is neither white space, a sign nor a
  decimal digit.
\<close>

lemma timestamp_NaN_cases:
  "CHR '':'' \<notin> set message \<Longrightarrow> timestamp_NaN message"
  "at (split message CHR '':'') 1 = Some [] \<Longrightarrow> timestamp_NaN message"
  "at (split message CHR '':'') 1 = Some (c # cs) \<Longrightarrow> \<not> StrWhiteSpaceChar c \<Longrightarrow>
     c \<noteq> CHR ''+'' \<Longrightarrow> c \<noteq> CHR ''-'' \<Longrightarrow> radixDigit 10 c = None \<Longrightarrow> timestamp_NaN message"
  by (simp_all add: timestamp_NaN_def split_no_sep at_def parseInt_no_digit)






text \<open>
  What \<open>submitStar\<close> does with a message whose embedded time parses to \<open>NaN\<close>: the
  comparison with 300 is false, and the call goes on as if the message were fresh.
\<close>

lemma submitStar_timestamp_NaN:
  assumes "timestamp_NaN message"
  shows "submitStar L now now' address message signature star this =
           (case verify L message address signature of
              Inl e \<Rightarrow> (Inl (Thrown e), this)
            | Inr ok \<Rightarrow>
                if ok then addBlock L now' (Block L \<lparr>owner = Some address, data = Star star\<rparr>) this
                else (Inl CouldntVerify, this))"
proof -
  from assms have "messageTime message = NaN"
    by (simp add: messageTime_NaN)
  then have "\<not> greater_number (minus_number (currentTime now) (messageTime message)) 300"
    by (cases "currentTime now") simp_all
  then show ?thesis
    by (simp add: submitStar_def split: sum.splits)
qed

text \<open>
  C6. The claim asks that a message whose second colon-delimited field is absent or not a
  number be rejected as malformed before the signature is verified. The source does not do
  it: for the message \<open>mxAddr\<close>, which has no second field, and for
  \<open>mxAddr:soon:starRegistry\<close>, whose second field is no number, the step documented as
  "Check if the time elapsed is less than 5 minutes" compares \<open>NaN\<close> with 300, lets the
  message through, and with an accepted signature the star is appended.
\<close>

theorem timestampless_message_accepted:
  "at (split ''mxAddr'' CHR '':'') 1 = None \<and>
   messageTime ''mxAddr'' = NaN \<and>
   submitStar exLib 1700000000123 1700000000456 ''mxAddr'' ''mxAddr'' ''sig:mxAddr/mxAddr''
     ''Vega'' exChain1 = (Inr exStar1, exChain2) \<and>
   at (split ''mxAddr:soon:starRegistry'' CHR '':'') 1 = Some ''soon'' \<and>
   messageTime ''mxAddr:soon:starRegistry'' = NaN \<and>
   submitStar exLib 1700000000123 1700000000456 ''mxAddr'' ''mxAddr:soon:starRegistry''
     ''sig:mxAddr/mxAddr:soon:starRegistry'' ''Vega'' exChain1 = (Inr exStar1, exChain2)"
proof -
  have a: "timestamp_NaN ''mxAddr''"
    by (simp add: timestamp_NaN_def at_def)
  have b: "timestamp_NaN ''mxAddr:soon:starRegistry''"
    by (simp add: timestamp_NaN_def at_def parseInt_def StrWhiteSpaceChar_def radixDigit_def
        digitValue_def)
  have v: "verify exLib ''mxAddr'' ''mxAddr'' ''sig:mxAddr/mxAddr'' = Inr True"
    "verify exLib ''mxAddr:soon:starRegistry'' ''mxAddr'' ''sig:mxAddr/mxAddr:soon:starRegistry''
       = Inr True"
    by (simp_all add: exLib_def exVerify_def)
  from a b have "messageTime ''mxAddr'' = NaN" "messageTime ''mxAddr:soon:starRegistry'' = NaN"
    by (simp_all add: messageTime_NaN)
  moreover have "at (split ''mxAddr'' CHR '':'') 1 = None"
    "at (split ''mxAddr:soon:starRegistry'' CHR '':'') 1 = Some ''soon''"
    by (simp_all add: at_def)
  ultimately show ?thesis
    using ex_addBlock2
    by (simp add: submitStar_timestamp_NaN [OF a] submitStar_timestamp_NaN [OF b] v exStarData_def)
qed




section \<open>Stars of a wallet\<close>

lemma getStars_loop_eq:
  "1 \<le> i \<Longrightarrow> this_height this < int (length (chain this)) \<Longrightarrow>
   getStars_loop L this address i stars =
     (case decodeAll L (drop (nat i) (take (nat (this_height this + 1)) (chain this))) of
        Inl e \<Rightarrow> Inl e
      | Inr ps \<Rightarrow> Inr (stars @ filter (\<lambda>p. owner p = Some address) ps))"
proof (induction L this address i stars rule: getStars_loop.induct)
  case (1 L this address i stars)
  let ?bs = "take (nat (this_height this + 1)) (chain this)"
  show ?case
  proof (cases "i \<le> this_height this")
    case False
    then have "drop (nat i) ?bs = []" by simp
    with False show ?thesis
      by (simp add: getStars_loop.simps [of L this address i])
  next
    case True
    with "1.prems" have a: "at (chain this) i = Some (chain this ! nat i)"
      by (simp add: at_def)
    from True "1.prems" have l: "nat i < length ?bs" by simp
    have "Suc (nat i) = nat (i + 1)" using "1.prems" by simp
    with Cons_nth_drop_Suc [OF l]
    have d: "drop (nat i) ?bs = chain this ! nat i # drop (nat (i + 1)) ?bs"
      using l by simp
    show ?thesis
    proof (cases "getBData L (chain this ! nat i)")
      case (Inl e)
      then show ?thesis
        by (simp add: getStars_loop.simps [of L this address i] True a d)
    next
      case (Inr blockData)
      from "1.IH" [OF True a Inr] "1.prems" Inr show ?thesis
        by (simp add: getStars_loop.simps [of L this address i] True a d split: sum.splits)
    qed
  qed
qed

text \<open>
  C8. Whenever the cached height stays inside the chain, \<open>getStarsByWalletAddress\<close> is
  the listing of the specification: it looks at the blocks after the first only (all of
  them when the cached height is the length minus one), decodes each, and returns in chain
  order exactly the decoded payloads owned by the address; every payload returned has that
  owner.
\<close>

theorem getStarsByWalletAddress_filters:
  assumes "this_height this < int (length (chain this))"
  shows "getStarsByWalletAddress L this address = starsOwnedBy L this address \<and>
         (this_height this = int (length (chain this)) - 1 \<longrightarrow> scanned this = tl (chain this)) \<and>
         (\<forall>stars. getStarsByWalletAddress L this address = Inr stars \<longrightarrow>
            (\<forall>p\<in>set stars. owner p = Some address))"
proof -
  have e: "getStarsByWalletAddress L this address = starsOwnedBy L this address"
    using getStars_loop_eq [of 1 this L address "[]"] assms
    by (simp add: getStarsByWalletAddress_def starsOwnedBy_def scanned_def split: sum.splits)
  have "scanned this = tl (chain this)" if "this_height this = int (length (chain this)) - 1"
    using that by (simp add: scanned_def drop_Suc)
  moreover have "\<forall>p\<in>set stars. owner p = Some address"
    if "getStarsByWalletAddress L this address = Inr stars" for stars
    using that unfolding e by (auto simp add: starsOwnedBy_def split: sum.splits)
  ultimately show ?thesis
    using e by blast
qed

lemma ex_decode:
  "getBData exLib exStar1 = Inr \<lparr>owner = Some ''mxAddr'', data = Star ''Vega''\<rparr>"
  "getBData exLib exStar2 = Inr \<lparr>owner = Some ''n2Addr'', data = Star ''Deneb''\<rparr>"
  "getBData exLib exStar3 = Inr \<lparr>owner = Some ''mxAddr'', data = Star ''Altair''\<rparr>"
  by (simp_all add: getBData_def exLib_def exDecode_def exStar1_def exStar2_def exStar3_def)

theorem getStarsByWalletAddress_filters_witness:
  "this_height exChain4 < int (length (chain exChain4)) \<and>
   getStarsByWalletAddress exLib exChain4 ''mxAddr'' =
     Inr [\<lparr>owner = Some ''mxAddr'', data = Star ''Vega''\<rparr>,
          \<lparr>owner = Some ''mxAddr'', data = Star ''Altair''\<rparr>] \<and>
   getStarsByWalletAddress exLib exChain4 ''n2Addr'' =
     Inr [\<lparr>owner = Some ''n2Addr'', data = Star ''Deneb''\<rparr>]"
proof -
  have h: "this_height exChain4 < int (length (chain exChain4))"
    by (simp add: exChain4_def)
  have s: "scanned exChain4 = [exStar1, exStar2, exStar3]"
    by (simp add: scanned_def exChain4_def)
  have "getStarsByWalletAddress exLib exChain4 ''mxAddr'' = starsOwnedBy exLib exChain4 ''mxAddr''"
    using getStarsByWalletAddress_filters [OF h, of exLib "''mxAddr''"] by (rule conjunct1)
  moreover
  have "getStarsByWalletAddress exLib exChain4 ''n2Addr'' = starsOwnedBy exLib exChain4 ''n2Addr''"
    using getStarsByWalletAddress_filters [OF h, of exLib "''n2Addr''"] by (rule conjunct1)
  ultimately show ?thesis
    using h by (simp add: starsOwnedBy_def s ex_decode)
qed

section \<open>Concurrent submissions\<close>

lemma consistent_block:
  assumes "consistent L this" and "1 \<le> i" and "i \<le> this_height this"
  shows "at (chain this) i = Some (chain this ! nat i)"
    and "validate L (chain this ! nat i)"
    and "validateChain_step this i True [] = Inr []"
proof -
  from assms(1) have h: "this_height this = int (length (chain this)) - 1"
    and e: "expectedErrors L this = []"
    by (simp_all add: consistent_def height_cached_def)
  from assms(2,3) h show a: "at (chain this) i = Some (chain this ! nat i)"
    by (simp add: at_def)
  from assms(2,3) h have b: "at (chain this) (i - 1) = Some (chain this ! (nat i - 1))"
    by (simp add: at_def nat_diff_distrib)
  from assms(2,3) have "nat i \<in> set [1 ..< nat (this_height this + 1)]"
    by auto
  with e have "blockErrors L (chain this) (nat i) = []"
    unfolding expectedErrors_def by simp
  then have v: "validate L (chain this ! nat i)"
    and p: "previousBlockHash (chain this ! nat i) = hash (chain this ! (nat i - 1))"
    by (simp_all add: blockErrors_def split: if_splits)
  from v show "validate L (chain this ! nat i)" .
  from p show "validateChain_step this i True [] = Inr []"
    by (simp add: validateChain_step_def a b)
qed

lemma validateChain_enter_ok:
  assumes "consistent L this" and "1 \<le> i" and "hash block = None"
  shows "task_ok L this (validateChain_enter L this now' block i [])"
    and "appended (validateChain_enter L this now' block i []) = 0"
    and "i \<le> H \<Longrightarrow> this_height this \<le> H \<Longrightarrow>
         remaining H (validateChain_enter L this now' block i []) \<le> nat (H - i) + 3"
    and "i \<le> H + 1 \<Longrightarrow> this_height this \<le> H \<Longrightarrow>
         remaining H (validateChain_enter L this now' block i []) \<le> nat (H - i + 1) + 2"
  using assms consistent_block(1,2) [OF assms(1,2)]
  by (auto simp add: validateChain_enter_def)

lemma addBlock_resume_consistent:
  assumes "consistent L this" and "hash b = None"
  shows "addBlock_resume L now b [] this =
           (Inr (seal L now b this),
            this\<lparr>this_height := this_height this + 1, chain := chain this @ [seal L now b this]\<rparr>)"
    and "consistent L
           (this\<lparr>this_height := this_height this + 1, chain := chain this @ [seal L now b this]\<rparr>)"
proof -
  from assms(1) have "validateChain L this = Inr []"
    by (simp add: consistent_def height_cached_def validateChain_eq)
  then have "addBlock_resume L now b [] this = addBlock L now b this"
    by (simp add: addBlock_def)
  with addBlock_consistent [OF assms, of now]
  show "addBlock_resume L now b [] this =
           (Inr (seal L now b this),
            this\<lparr>this_height := this_height this + 1, chain := chain this @ [seal L now b this]\<rparr>)"
    and "consistent L
           (this\<lparr>this_height := this_height this + 1, chain := chain this @ [seal L now b this]\<rparr>)"
    by simp_all
qed

lemma sum_list_appended_update:
  "k < length ts \<Longrightarrow>
   sum_list (map appended (ts[k := t'])) + appended (ts ! k) = sum_list (map appended ts) + appended t'"
proof (induction ts arbitrary: k)
  case Nil
  then show ?case by simp
next
  case (Cons t ts)
  then show ?case by (cases k) auto
qed

lemma advance_ok:
  assumes "consistent L this" and "task_ok L this t" and "advance L this t = (this', t')"
  shows "consistent L this' \<and> task_ok L this' t' \<and>
         ((this' = this \<and> appended t' = appended t) \<or>
          (\<exists>b. this' = this\<lparr>this_height := this_height this + 1, chain := chain this @ [b]\<rparr> \<and>
               height b = this_height this + 1 \<and> appended t = 0 \<and> appended t' = 1))"
proof (cases t)
  case (Called now now' address message signature star)
  with assms(2,3) have "this' = this"
    and "t' = validateChain_enter L this now' (Block L \<lparr>owner = Some address, data = Star star\<rparr>) 1 []"
    by auto
  with assms(1) Called show ?thesis
    using validateChain_enter_ok(1,2)
      [of L this 1 "Block L \<lparr>owner = Some address, data = Star star\<rparr>" now']
    by (simp add: Block_hash)
next
  case (AwaitValidate now' block i ok errorLog)
  with assms(2) have i: "1 \<le> i" "i \<le> this_height this" and h: "hash block = None"
    and o: "ok" "errorLog = []"
    by simp_all
  from consistent_block(3) [OF assms(1) i] assms(3) AwaitValidate o
  have "this' = this" and "t' = validateChain_enter L this now' block (i + 1) []"
    by auto
  with assms(1) AwaitValidate i h show ?thesis
    using validateChain_enter_ok(1,2) [of L this "i + 1" block now']
    by simp
next
  case (AwaitValidateChain now' block chainErrors)
  with assms(2) have h: "hash block = None" and c: "chainErrors = []"
    by simp_all
  note r = addBlock_resume_consistent [OF assms(1) h, of now']
  from r(1) assms(3) AwaitValidateChain c
  have "this' = this\<lparr>this_height := this_height this + 1,
                     chain := chain this @ [seal L now' block this]\<rparr>"
    and "t' = AwaitAddBlock (seal L now' block this)"
    by auto
  moreover have "height (seal L now' block this) = this_height this + 1"
    by (simp add: seal_fields)
  ultimately show ?thesis
    using r(2) AwaitValidateChain by auto
next
  case (AwaitAddBlock b)
  with assms show ?thesis by auto
next
  case (Resolved b)
  with assms show ?thesis by auto
next
  case (Rejected e)
  with assms show ?thesis by simp
qed

lemma task_ok_grow:
  "task_ok L this t \<Longrightarrow>
   task_ok L (this\<lparr>this_height := this_height this + 1, chain := chain this @ [b]\<rparr>) t"
  by (cases t) auto

lemma fire_invariant:
  assumes "flight_invariant L this0 cfg"
  shows "flight_invariant L this0 (fire L cfg k)"
proof (cases cfg)
  case (Pair this ts)
  show ?thesis
  proof (cases "k < length ts")
    case False
    with assms Pair show ?thesis by (simp add: fire_def)
  next
    case True
    obtain this' t' where a: "advance L this (ts ! k) = (this', t')"
      by (cases "advance L this (ts ! k)")
    with True Pair have f: "fire L cfg k = (this', ts[k := t'])"
      by (simp add: fire_def)
    from assms Pair have c: "consistent L this" and o: "\<forall>t\<in>set ts. task_ok L this t"
      and p: "take (length (chain this0)) (chain this) = chain this0"
      and n: "length (chain this) = length (chain this0) + sum_list (map appended ts)"
      and g: "\<forall>j. length (chain this0) \<le> j \<and> j < length (chain this) \<longrightarrow>
               height (chain this ! j) = int j"
      by (simp_all add: flight_invariant_def)
    from o True have "task_ok L this (ts ! k)" by simp
    note s = advance_ok [OF c this a]
    from s have c': "consistent L this'" and o': "task_ok L this' t'" by simp_all
    note u = sum_list_appended_update [OF True, of t']
    from s have "(this' = this \<and> appended t' = appended (ts ! k)) \<or>
          (\<exists>b. this' = this\<lparr>this_height := this_height this + 1, chain := chain this @ [b]\<rparr> \<and>
               height b = this_height this + 1 \<and> appended (ts ! k) = 0 \<and> appended t' = 1)"
      by simp
    then show ?thesis
    proof
      assume e: "this' = this \<and> appended t' = appended (ts ! k)"
      have "\<forall>t\<in>set (ts[k := t']). task_ok L this' t"
        using o o' e set_update_subset_insert [of ts k t'] by auto
      with c' e p n g u show ?thesis
        by (simp add: f flight_invariant_def)
    next
      assume "\<exists>b. this' = this\<lparr>this_height := this_height this + 1, chain := chain this @ [b]\<rparr> \<and>
               height b = this_height this + 1 \<and> appended (ts ! k) = 0 \<and> appended t' = 1"
      then obtain b
        where e: "this' = this\<lparr>this_height := this_height this + 1, chain := chain this @ [b]\<rparr>"
          and hb: "height b = this_height this + 1"
          and w: "appended (ts ! k) = 0" "appended t' = 1"
        by blast
      from c have hc: "this_height this = int (length (chain this)) - 1"
        by (simp add: consistent_def height_cached_def)
      have 1: "\<forall>t\<in>set (ts[k := t']). task_ok L this' t"
        using o o' set_update_subset_insert [of ts k t'] task_ok_grow [of L this _ b]
        unfolding e by blast
      have 2: "take (length (chain this0)) (chain this') = chain this0"
        using p n by (simp add: e)
      have 3: "length (chain this') = length (chain this0) + sum_list (map appended (ts[k := t']))"
        using n u w by (simp add: e)
      have 4: "height (chain this' ! j) = int j"
        if "length (chain this0) \<le> j" and "j < length (chain this')" for j
      proof (cases "j < length (chain this)")
        case True
        with that g show ?thesis by (simp add: e nth_append)
      next
        case False
        with that have "j = length (chain this)" by (simp add: e)
        with hb hc show ?thesis by (simp add: e nth_append)
      qed
      from c' 1 2 3 4 show ?thesis
        by (simp add: f flight_invariant_def)
    qed
  qed
qed

lemma interleave_snoc: "interleave L (sched @ [k]) cfg = fire L (interleave L sched cfg) k"
  by (simp add: interleave_def)

lemma interleave_invariant:
  "flight_invariant L this0 cfg \<Longrightarrow> flight_invariant L this0 (interleave L sched cfg)"
  by (induction sched rule: rev_induct) (simp_all add: interleave_def fire_invariant)

lemma advance_remaining:
  assumes "consistent L this" and "task_ok L this t" and "advance L this t = (this', t')"
    and "this_height this \<le> H" and "0 \<le> H"
  shows "remaining H t' \<le> remaining H t - 1"
proof (cases t)
  case (Called now now' address message signature star)
  with assms(2,3)
  have "t' = validateChain_enter L this now' (Block L \<lparr>owner = Some address, data = Star star\<rparr>) 1 []"
    by auto
  with assms(1,4,5) Called show ?thesis
    using validateChain_enter_ok(4)
      [of L this 1 "Block L \<lparr>owner = Some address, data = Star star\<rparr>" H now']
    by (simp add: Block_hash)
next
  case (AwaitValidate now' block i ok errorLog)
  with assms(2) have i: "1 \<le> i" "i \<le> this_height this" and h: "hash block = None"
    and o: "ok" "errorLog = []"
    by simp_all
  from consistent_block(3) [OF assms(1) i] assms(3) AwaitValidate o
  have "t' = validateChain_enter L this now' block (i + 1) []"
    by auto
  with assms(1,4) AwaitValidate i h show ?thesis
    using validateChain_enter_ok(4) [of L this "i + 1" block H now']
    by simp
next
  case (AwaitValidateChain now' block chainErrors)
  with assms(2) have h: "hash block = None" and c: "chainErrors = []"
    by simp_all
  from addBlock_resume_consistent(1) [OF assms(1) h, of now'] assms(3) AwaitValidateChain c
  have "t' = AwaitAddBlock (seal L now' block this)"
    by auto
  with AwaitValidateChain show ?thesis by simp
next
  case (AwaitAddBlock b)
  with assms show ?thesis by auto
next
  case (Resolved b)
  with assms show ?thesis by auto
next
  case (Rejected e)
  with assms show ?thesis by simp
qed

lemma sum_list_appended_le: "sum_list (map appended ts) \<le> length ts"
proof (induction ts)
  case Nil
  then show ?case by simp
next
  case (Cons t ts)
  then show ?case by (cases t) simp_all
qed

lemma invariant_height:
  assumes "flight_invariant L this0 (this, ts)" and "height_cached this0"
  shows "this_height this = this_height this0 + int (sum_list (map appended ts))"
    and "this_height this \<le> this_height this0 + int (length ts)"
proof -
  from assms(1) have "this_height this = int (length (chain this)) - 1"
    and "length (chain this) = length (chain this0) + sum_list (map appended ts)"
    by (simp_all add: flight_invariant_def consistent_def height_cached_def)
  with assms(2) show "this_height this = this_height this0 + int (sum_list (map appended ts))"
    by (simp add: height_cached_def)
  with sum_list_appended_le [of ts]
  show "this_height this \<le> this_height this0 + int (length ts)"
    by simp
qed

lemma fire_remaining:
  assumes "flight_invariant L this0 (this, ts)" and "height_cached this0"
    and "H = this_height this0 + int (length ts)" and "0 \<le> H"
    and "fire L (this, ts) k = (this', ts')"
  shows "length ts' = length ts"
    and "j < length ts \<Longrightarrow>
         remaining H (ts' ! j) \<le> remaining H (ts ! j) - (if j = k then 1 else 0)"
proof -
  show "length ts' = length ts"
    using assms(5) by (auto simp add: fire_def split: if_splits prod.splits)
  show "remaining H (ts' ! j) \<le> remaining H (ts ! j) - (if j = k then 1 else 0)"
    if "j < length ts"
  proof (cases "k < length ts")
    case False
    with assms(5) that show ?thesis by (auto simp add: fire_def)
  next
    case True
    obtain this1 t1 where a: "advance L this (ts ! k) = (this1, t1)"
      by (cases "advance L this (ts ! k)")
    with True assms(5) have t: "ts' = ts[k := t1]"
      by (simp add: fire_def)
    from assms(1) True have c: "consistent L this" and o: "task_ok L this (ts ! k)"
      by (simp_all add: flight_invariant_def)
    from invariant_height(2) [OF assms(1,2)] assms(3) have "this_height this \<le> H"
      by simp
    from advance_remaining [OF c o a this assms(4)] that show ?thesis
      by (simp add: t nth_list_update)
  qed
qed

lemma interleave_remaining:
  assumes "flight_invariant L this0 (this0, ts0)" and "height_cached this0"
    and "H = this_height this0 + int (length ts0)" and "0 \<le> H"
  shows "length (snd (interleave L sched (this0, ts0))) = length ts0 \<and>
         (\<forall>j<length ts0. remaining H (snd (interleave L sched (this0, ts0)) ! j)
              \<le> remaining H (ts0 ! j) - count_list sched j)"
proof (induction sched rule: rev_induct)
  case Nil
  show ?case by (simp add: interleave_def)
next
  case (snoc k sched)
  obtain this ts where c: "interleave L sched (this0, ts0) = (this, ts)"
    by (cases "interleave L sched (this0, ts0)")
  obtain this' ts' where f: "fire L (this, ts) k = (this', ts')"
    by (cases "fire L (this, ts) k")
  from snoc.IH c have l: "length ts = length ts0"
    and r: "\<forall>j<length ts0. remaining H (ts ! j) \<le> remaining H (ts0 ! j) - count_list sched j"
    by simp_all
  from interleave_invariant [OF assms(1), of sched] c
  have i: "flight_invariant L this0 (this, ts)" by simp
  from assms(3) l have h: "H = this_height this0 + int (length ts)" by simp
  note s = fire_remaining [OF i assms(2) h assms(4) f]
  have "remaining H (ts' ! j) \<le> remaining H (ts0 ! j) - count_list (sched @ [k]) j"
    if "j < length ts0" for j
  proof -
    from that l s(2) [of j]
    have "remaining H (ts' ! j) \<le> remaining H (ts ! j) - (if j = k then 1 else 0)"
      by simp
    with r that show ?thesis by auto
  qed
  with s(1) l show ?case
    by (simp add: interleave_snoc c f)
qed

lemma interleave_length: "length (snd (interleave L sched cfg)) = length (snd cfg)"
proof (induction sched rule: rev_induct)
  case Nil
  show ?case by (simp add: interleave_def)
next
  case (snoc k sched)
  then show ?case
    by (cases "interleave L sched cfg")
       (auto simp add: interleave_snoc fire_def split: prod.splits)
qed

lemma valid_calls_invariant:
  assumes "consistent L this" and "\<forall>t\<in>set ts. valid_call L t"
  shows "flight_invariant L this (this, ts)"
proof -
  have "task_ok L this t \<and> appended t = 0" if "valid_call L t" for t
    using that by (cases t) simp_all
  with assms(2) have "\<forall>t\<in>set ts. task_ok L this t" and "\<forall>t\<in>set ts. appended t = 0"
    by blast+
  then have "\<forall>t\<in>set ts. task_ok L this t" and "sum_list (map appended ts) = 0"
    by simp_all
  with assms(1) show ?thesis
    by (simp add: flight_invariant_def)
qed

lemma remaining_0: "remaining H t = 0 \<Longrightarrow> (\<exists>b. t = Resolved b) \<or> (\<exists>e. t = Rejected e)"
  by (cases t) simp_all

lemma all_resolved_appended:
  "\<forall>k<length ts. \<exists>b. ts ! k = Resolved b \<Longrightarrow> sum_list (map appended ts) = length ts"
proof (induction ts)
  case Nil
  show ?case by simp
next
  case (Cons t ts)
  from Cons.prems have "\<exists>b. (t # ts) ! 0 = Resolved b" by blast
  then have "appended t = 1" by auto
  moreover from Cons.prems have "\<forall>k<length ts. \<exists>b. ts ! k = Resolved b" by fastforce
  ultimately show ?case using Cons.IH by simp
qed

text \<open>
  C9, amended. With \<open>N\<close> calls of \<open>submitStar\<close> in flight that pass the freshness and
  signature checks, on a chain whose cached height is right and on which the validator
  reports nothing, in whatever order their segments run: no call is rejected, the old
  chain stays a prefix, the new blocks are as many as the calls that have passed their
  append, each new block has its position as height, and the validator still reports
  nothing. Once every call has been given at least \<open>height + N + 3\<close> segments, all \<open>N\<close>
  calls have resolved with a block of the chain and the chain has exactly \<open>N\<close> new blocks.
\<close>

theorem concurrent_submissions:
  assumes "this_height this = int (length (chain this)) - 1"
    and "validateChain L this = Inr []"
    and "\<forall>t\<in>set ts. valid_call L t"
    and "interleave L sched (this, ts) = (this', ts')"
  shows "length ts' = length ts \<and>
         (\<forall>t\<in>set ts'. \<forall>e. t \<noteq> Rejected e) \<and>
         take (length (chain this)) (chain this') = chain this \<and>
         length (chain this') = length (chain this) + sum_list (map appended ts') \<and>
         this_height this' = int (length (chain this')) - 1 \<and>
         (\<forall>j. length (chain this) \<le> j \<and> j < length (chain this') \<longrightarrow>
              height (chain this' ! j) = int j) \<and>
         validateChain L this' = Inr [] \<and>
         ((\<forall>k<length ts. nat (this_height this + int (length ts)) + 3 \<le> count_list sched k) \<longrightarrow>
            (\<forall>k<length ts. \<exists>b. ts' ! k = Resolved b \<and> b \<in> set (chain this')) \<and>
            length (chain this') = length (chain this) + length ts)"
proof -
  from assms(1) have hc: "height_cached this"
    by (simp add: height_cached_def)
  with assms(1,2) have c: "consistent L this"
    by (simp add: consistent_def validateChain_eq)
  note i0 = valid_calls_invariant [OF c assms(3)]
  from interleave_invariant [OF i0, of sched] assms(4)
  have i: "flight_invariant L this (this', ts')" by simp
  then have c': "consistent L this'" and o: "\<forall>t\<in>set ts'. task_ok L this' t"
    and p: "take (length (chain this)) (chain this') = chain this"
    and n: "length (chain this') = length (chain this) + sum_list (map appended ts')"
    and g: "\<forall>j. length (chain this) \<le> j \<and> j < length (chain this') \<longrightarrow>
              height (chain this' ! j) = int j"
    by (simp_all add: flight_invariant_def)
  from interleave_length [of L sched "(this, ts)"] assms(4)
  have l: "length ts' = length ts" by simp
  from o have r: "\<forall>t\<in>set ts'. \<forall>e. t \<noteq> Rejected e" by auto
  from c' have h': "this_height this' = int (length (chain this')) - 1"
    and v': "validateChain L this' = Inr []"
    by (simp_all add: consistent_def height_cached_def validateChain_eq)
  have "(\<forall>k<length ts. \<exists>b. ts' ! k = Resolved b \<and> b \<in> set (chain this')) \<and>
        length (chain this') = length (chain this) + length ts"
    if f: "\<forall>k<length ts. nat (this_height this + int (length ts)) + 3 \<le> count_list sched k"
  proof (cases "ts = []")
    case True
    with l n show ?thesis by simp
  next
    case False
    define H where "H = this_height this + int (length ts)"
    from False assms(1) have H: "0 \<le> H"
      by (cases ts) (simp_all add: H_def)
    from interleave_remaining [OF i0 hc H_def H, of sched] assms(4)
    have m: "\<forall>j<length ts. remaining H (ts' ! j) \<le> remaining H (ts ! j) - count_list sched j"
      by simp
    have d: "\<exists>b. ts' ! k = Resolved b \<and> b \<in> set (chain this')" if k: "k < length ts" for k
    proof -
      from k assms(3) have "valid_call L (ts ! k)" by simp
      then have "remaining H (ts ! k) = nat H + 3"
        by (cases "ts ! k") simp_all
      with m k f have "remaining H (ts' ! k) = 0"
        by (simp add: H_def) (metis diff_is_0_eq le_zero_eq)
      then have "(\<exists>b. ts' ! k = Resolved b) \<or> (\<exists>e. ts' ! k = Rejected e)"
        by (rule remaining_0)
      moreover from k l o have "task_ok L this' (ts' ! k)" by simp
      ultimately show ?thesis by auto
    qed
    then have "\<forall>k<length ts'. \<exists>b. ts' ! k = Resolved b"
      using l by auto
    from all_resolved_appended [OF this] n l d show ?thesis
      by simp
  qed
  with l r p n h' g v' show ?thesis
    by blast
qed

subsection \<open>A call alone\<close>

lemma interleave_Cons: "interleave L (k # sched) cfg = interleave L sched (fire L cfg k)"
  by (simp add: interleave_def)

lemma fire_single:
  "fire L (this, [t]) 0 = (fst (advance L this t), [snd (advance L this t)])"
  by (simp add: fire_def split: prod.splits)

lemma alone_validateChain:
  "\<exists>n. interleave L (replicate n 0) (this, [validateChain_enter L this now' block i errorLog])
        = (this, [case validateChain_loop L this i errorLog of
                    Inl e \<Rightarrow> Rejected e
                  | Inr chainErrors \<Rightarrow> AwaitValidateChain now' block chainErrors])"
proof (induction L this i errorLog rule: validateChain_loop.induct)
  case (1 L this i errorLog)
  show ?case
  proof (cases "i \<le> this_height this")
    case False
    then have "interleave L (replicate 0 0) (this, [validateChain_enter L this now' block i errorLog])
        = (this, [case validateChain_loop L this i errorLog of
                    Inl e \<Rightarrow> Rejected e
                  | Inr chainErrors \<Rightarrow> AwaitValidateChain now' block chainErrors])"
      by (simp add: interleave_def validateChain_enter_def validateChain_loop.simps [of L this i])
    then show ?thesis by blast
  next
    case True
    show ?thesis
    proof (cases "at (chain this) i")
      case None
      with True
      have "interleave L (replicate 0 0) (this, [validateChain_enter L this now' block i errorLog])
        = (this, [case validateChain_loop L this i errorLog of
                    Inl e \<Rightarrow> Rejected e
                  | Inr chainErrors \<Rightarrow> AwaitValidateChain now' block chainErrors])"
        by (simp add: interleave_def validateChain_enter_def validateChain_loop.simps [of L this i])
      then show ?thesis by blast
    next
      case (Some b)
      show ?thesis
      proof (cases "validateChain_step this i (validate L b) errorLog")
        case (Inl e)
        with True Some
        have "interleave L (replicate 1 0)
                (this, [validateChain_enter L this now' block i errorLog])
          = (this, [case validateChain_loop L this i errorLog of
                      Inl e \<Rightarrow> Rejected e
                    | Inr chainErrors \<Rightarrow> AwaitValidateChain now' block chainErrors])"
          by (simp add: interleave_def fire_single validateChain_enter_def
              validateChain_loop.simps [of L this i])
        then show ?thesis by blast
      next
        case (Inr errorLog')
        from "1.IH" [OF True Some Inr] obtain n
          where n: "interleave L (replicate n 0)
                      (this, [validateChain_enter L this now' block (i + 1) errorLog'])
            = (this, [case validateChain_loop L this (i + 1) errorLog' of
                        Inl e \<Rightarrow> Rejected e
                      | Inr chainErrors \<Rightarrow> AwaitValidateChain now' block chainErrors])"
          by blast
        from True Some Inr
        have "interleave L (replicate (Suc n) 0)
                (this, [validateChain_enter L this now' block i errorLog])
          = interleave L (replicate n 0)
              (this, [validateChain_enter L this now' block (i + 1) errorLog'])"
          by (simp add: interleave_Cons fire_single validateChain_enter_def)
        also from True Some Inr n
        have "\<dots> = (this, [case validateChain_loop L this i errorLog of
                      Inl e \<Rightarrow> Rejected e
                    | Inr chainErrors \<Rightarrow> AwaitValidateChain now' block chainErrors])"
          by (simp add: validateChain_loop.simps [of L this i])
        finally show ?thesis by blast
      qed
    qed
  qed
qed

lemma interleave_replicate_add:
  "interleave L (replicate (m + n) 0) cfg
     = interleave L (replicate n 0) (interleave L (replicate m 0) cfg)"
  by (simp add: interleave_def replicate_add)

lemma alone_addBlock:
  "\<exists>n. interleave L (replicate n 0) (this, [validateChain_enter L this now' block 1 []])
        = (snd (addBlock L now' block this), [settled (fst (addBlock L now' block this))])"
proof -
  from alone_validateChain [of L this now' block 1 "[]"] obtain n
    where n: "interleave L (replicate n 0) (this, [validateChain_enter L this now' block 1 []])
        = (this, [case validateChain L this of
                    Inl e \<Rightarrow> Rejected e
                  | Inr chainErrors \<Rightarrow> AwaitValidateChain now' block chainErrors])"
    by (auto simp add: validateChain_def)
  show ?thesis
  proof (cases "validateChain L this")
    case (Inl e)
    with n have "interleave L (replicate n 0) (this, [validateChain_enter L this now' block 1 []])
        = (snd (addBlock L now' block this), [settled (fst (addBlock L now' block this))])"
      by (simp add: addBlock_def settled_def)
    then show ?thesis by blast
  next
    case (Inr chainErrors)
    have "interleave L (replicate 2 0) (this, [AwaitValidateChain now' block chainErrors])
        = (snd (addBlock L now' block this), [settled (fst (addBlock L now' block this))])"
      by (cases "addBlock_resume L now' block chainErrors this"; cases "fst (addBlock_resume L now' block chainErrors this)")
         (simp_all add: numeral_2_eq_2 interleave_Cons fire_single addBlock_def Inr settled_def
            interleave_def)
    with n Inr
    have "interleave L (replicate (n + 2) 0) (this, [validateChain_enter L this now' block 1 []])
        = (snd (addBlock L now' block this), [settled (fst (addBlock L now' block this))])"
      by (simp only: interleave_replicate_add) simp
    then show ?thesis by blast
  qed
qed

text \<open>
  A call that runs with no other call in flight ends as the sequential \<open>submitStar\<close>
  does: same state, same outcome.
\<close>

lemma alone_submitStar:
  "\<exists>n. interleave L (replicate n 0) (this, [Called now now' address message signature star])
        = (snd (submitStar L now now' address message signature star this),
           [settled (fst (submitStar L now now' address message signature star this))])"
proof (cases "advance L this (Called now now' address message signature star)
                = (this, validateChain_enter L this now'
                     (Block L \<lparr>owner = Some address, data = Star star\<rparr>) 1 []) \<and>
              submitStar L now now' address message signature star this
                = addBlock L now' (Block L \<lparr>owner = Some address, data = Star star\<rparr>) this")
  case True
  from alone_addBlock [of L this now' "Block L \<lparr>owner = Some address, data = Star star\<rparr>"]
  obtain n where "interleave L (replicate n 0)
      (this, [validateChain_enter L this now' (Block L \<lparr>owner = Some address, data = Star star\<rparr>) 1 []])
    = (snd (addBlock L now' (Block L \<lparr>owner = Some address, data = Star star\<rparr>) this),
       [settled (fst (addBlock L now' (Block L \<lparr>owner = Some address, data = Star star\<rparr>) this))])"
    by blast
  with True
  have "interleave L (replicate (Suc n) 0) (this, [Called now now' address message signature star])
        = (snd (submitStar L now now' address message signature star this),
           [settled (fst (submitStar L now now' address message signature star this))])"
    by (simp add: interleave_Cons fire_single)
  then show ?thesis by blast
next
  case False
  then have "interleave L (replicate 1 0) (this, [Called now now' address message signature star])
        = (snd (submitStar L now now' address message signature star this),
           [settled (fst (submitStar L now now' address message signature star this))])"
    by (auto simp add: interleave_def fire_single submitStar_def settled_def split: sum.splits)
  then show ?thesis by blast
qed

subsection \<open>Two calls made together\<close>

lemma ex_seal3: "seal exLib 1700000100456 (Block exLib exStarDataB) exChain2 = exStar2"
  by (simp add: seal_def Block_def exLib_def exStringify_def exEncode_def optString_def
      exStarDataB_def exChain2_def exStar1_def exStar2_def timestamp_secs toString_numeral
      digitChar_def)

lemma ex_consistent: "consistent exLib exChain1" "consistent exLib exChain2"
  by (simp_all add: consistent_def height_cached_def ex_errors1 ex_errors2)
     (simp_all add: exChain1_def exChain2_def)

lemma ex_valid_calls: "valid_call exLib exCallA" "valid_call exLib exCallB"
proof -
  have "messageTime ''n2Addr:1699999999:starRegistry'' = Num 1699999999"
    using messageTime_challenge [of "''n2Addr''" 1699999999000]
    by (simp add: requestMessageOwnershipVerification_def timestamp_secs toString_numeral
        digitChar_def)
  then show "valid_call exLib exCallA" "valid_call exLib exCallB"
    by (simp_all add: exCallA_def exCallB_def currentTime_secs ex_messageTime ex_verify)
       (simp add: exLib_def exVerify_def)
qed

lemma ex_called:
  "advance exLib exChain1 exCallA =
     (exChain1, AwaitValidateChain 1700000000456 (Block exLib exStarData) [])"
  "advance exLib this exCallB =
     (this, validateChain_enter exLib this 1700000100456 (Block exLib exStarDataB) 1 [])"
  using ex_valid_calls
  by (simp_all add: exCallA_def exCallB_def exStarData_def exStarDataB_def
      validateChain_enter_def exChain1_def)

lemma ex_enter1:
  "validateChain_enter exLib exChain1 t b 1 [] = AwaitValidateChain t b []"
  by (simp add: validateChain_enter_def exChain1_def)

lemma ex_resume:
  "addBlock_resume exLib 1700000000456 (Block exLib exStarData) [] exChain1
     = (Inr exStar1, exChain2)"
  "addBlock_resume exLib 1700000100456 (Block exLib exStarDataB) [] exChain2
     = (Inr exStar2, exChain3)"
  by (simp_all add: addBlock_resume_consistent(1) ex_consistent Block_hash ex_seal2 ex_seal3)
     (simp_all add: exChain1_def exChain2_def exChain3_def)

text \<open>
  C9, as the claim states it, fails: nothing makes validation and append one unit. Two
  calls are made together on the chain of the genesis block alone; both finish their
  validation of that chain (schedule \<open>[0, 1]\<close>), then the first appends (\<open>[0, 1, 0]\<close>), and
  only then the second appends, to a chain it has not validated. This is the order of the
  JavaScript job queue for two calls made in a row.
\<close>

theorem append_serialization_counterexample:
  "interleave exLib [0, 1] (exChain1, [exCallA, exCallB]) =
     (exChain1, [AwaitValidateChain 1700000000456 (Block exLib exStarData) [],
                 AwaitValidateChain 1700000100456 (Block exLib exStarDataB) []]) \<and>
   interleave exLib [0, 1, 0] (exChain1, [exCallA, exCallB]) =
     (exChain2, [AwaitAddBlock exStar1,
                 AwaitValidateChain 1700000100456 (Block exLib exStarDataB) []]) \<and>
   interleave exLib [0, 1, 0, 1] (exChain1, [exCallA, exCallB]) =
     (exChain3, [AwaitAddBlock exStar1, AwaitAddBlock exStar2])"
  by (simp add: interleave_def fire_def ex_called ex_enter1 ex_resume)

lemma ex_interleave:
  "interleave exLib [0, 1, 0, 1, 0, 1, 0, 1, 0, 1] (exChain1, [exCallA, exCallB]) =
     (exChain3, [Resolved exStar1, Resolved exStar2])"
  by (simp add: interleave_def fire_def ex_called ex_enter1 ex_resume)

theorem concurrent_submissions_witness:
  "this_height exChain1 = int (length (chain exChain1)) - 1 \<and>
   validateChain exLib exChain1 = Inr [] \<and>
   valid_call exLib exCallA \<and> valid_call exLib exCallB \<and>
   interleave exLib [0, 1, 0, 1, 0, 1, 0, 1, 0, 1] (exChain1, [exCallA, exCallB]) =
     (exChain3, [Resolved exStar1, Resolved exStar2]) \<and>
   length (chain exChain3) = length (chain exChain1) + 2 \<and>
   validateChain exLib exChain3 = Inr [] \<and>
   height (chain exChain3 ! 1) = 1 \<and> height (chain exChain3 ! 2) = 2"
proof -
  have h: "this_height exChain1 = int (length (chain exChain1)) - 1"
    by (simp add: exChain1_def)
  have v: "validateChain exLib exChain1 = Inr []"
    using ex_errors1 by (simp add: validateChain_eq exChain1_def)
  have c: "\<forall>t\<in>set [exCallA, exCallB]. valid_call exLib t"
    by (simp add: ex_valid_calls)
  have f: "\<forall>k<length [exCallA, exCallB].
      nat (this_height exChain1 + int (length [exCallA, exCallB])) + 3
        \<le> count_list [0, 1, 0, 1, 0, 1, 0, 1, 0, 1] k"
    by (simp add: exChain1_def less_Suc_eq)
  note t = concurrent_submissions [OF h v c ex_interleave]
  from t f have "length (chain exChain3) = length (chain exChain1) + length [exCallA, exCallB]"
    by blast
  moreover from t have "validateChain exLib exChain3 = Inr []"
    by blast
  moreover from t have g: "\<forall>j. length (chain exChain1) \<le> j \<and> j < length (chain exChain3) \<longrightarrow>
      height (chain exChain3 ! j) = int j"
    by blast
  have "height (chain exChain3 ! 1) = 1" "height (chain exChain3 ! 2) = 2"
    using g [rule_format, of 1] g [rule_format, of 2]
    by (simp_all add: exChain1_def exChain3_def)
  ultimately show ?thesis
    using h v ex_valid_calls ex_interleave by simp
qed

section \<open>The constructor and the genesis block\<close>

lemma Blockchain_pending:
  "Blockchain L now =
     (empty_chain,
      [AwaitValidateChain now (Block L \<lparr>owner = None, data = Text ''Genesis Block''\<rparr>) []])"
  by (simp add: Blockchain_def call_initializeChain_def initializeChain_begin_def
      validateChain_enter_def empty_chain_def)

lemma initialized_eq:
  "initialized L now =
     \<lparr>chain = [seal L now (Block L \<lparr>owner = None, data = Text ''Genesis Block''\<rparr>) empty_chain],
      this_height = 0\<rparr>"
  using addBlock_consistent(1)
    [OF empty_consistent [of L] Block_hash [of L "\<lparr>owner = None, data = Text ''Genesis Block''\<rparr>"], of now]
  by (simp add: initialized_def snd_initializeChain empty_chain_def)

text \<open>
  When the pending call of the constructor runs its next segment, with nothing in
  between, the object becomes the initialized one: one block, the genesis block, at height
  0. From then on \<open>initializeChain()\<close> finds the height different from \<open>-1\<close> and adds
  nothing.
\<close>

lemma Blockchain_settles:
  "interleave L [0] (Blockchain L now) =
     (initialized L now,
      [AwaitAddBlock (seal L now (Block L \<lparr>owner = None, data = Text ''Genesis Block''\<rparr>)
                        empty_chain)])"
  using addBlock_resume_consistent(1)
    [OF empty_consistent [of L] Block_hash [of L "\<lparr>owner = None, data = Text ''Genesis Block''\<rparr>"], of now]
  by (simp add: Blockchain_pending interleave_def fire_def initialized_eq)
     (simp add: empty_chain_def)

lemma call_initializeChain_later:
  "this_height this \<noteq> - 1 \<Longrightarrow> call_initializeChain L now (this, ts) = (this, ts)"
  by (simp add: call_initializeChain_def initializeChain_begin_def)

lemma initializeChain_after_settling:
  "call_initializeChain L now' (interleave L [0] (Blockchain L now))
     = interleave L [0] (Blockchain L now)"
  by (simp add: Blockchain_settles call_initializeChain_later initialized_eq)

lemma ex_seal_genesis2:
  "seal exLib 1600000000124 (Block exLib exGenesisData) exChain1 = exGenesis2"
  by (simp add: seal_def Block_def exLib_def exStringify_def exEncode_def optString_def
      exGenesisData_def exChain1_def exGenesis_def exGenesis2_def timestamp_secs toString_numeral
      digitChar_def)

lemma ex_resume_genesis:
  "addBlock_resume exLib 1600000000123 (Block exLib exGenesisData) [] empty_chain
     = (Inr exGenesis, exChain1)"
  "addBlock_resume exLib 1600000000124 (Block exLib exGenesisData) [] exChain1
     = (Inr exGenesis2, exDoubleGenesis)"
  by (simp_all add: addBlock_resume_consistent(1) empty_consistent ex_consistent Block_hash
      ex_seal1 ex_seal_genesis2)
     (simp_all add: empty_chain_def exChain1_def exDoubleGenesis_def)

text \<open>
  C7. The claim: construction creates exactly one genesis block, and an initialization
  that finds the chain initialized adds none, so the genesis marker is there exactly once.
  The source guards the initialization with \<open>this.height === -1\<close> but raises the height
  only after the \<open>await\<close> in \<open>_addBlock\<close>. The object the constructor returns is still
  empty, at height \<open>-1\<close>, with its genesis append pending; a call of \<open>initializeChain()\<close>
  made on it at once passes the guard as well, and when the two pending appends have run,
  in the order of the job queue, the chain holds two blocks with the genesis payload, at
  heights 0 and 1.
\<close>

theorem double_genesis:
  "Blockchain exLib 1600000000123 =
     (empty_chain, [AwaitValidateChain 1600000000123 (Block exLib exGenesisData) []]) \<and>
   call_initializeChain exLib 1600000000124 (Blockchain exLib 1600000000123) =
     (empty_chain, [AwaitValidateChain 1600000000123 (Block exLib exGenesisData) [],
                    AwaitValidateChain 1600000000124 (Block exLib exGenesisData) []]) \<and>
   interleave exLib [0, 1]
       (call_initializeChain exLib 1600000000124 (Blockchain exLib 1600000000123)) =
     (exDoubleGenesis, [AwaitAddBlock exGenesis, AwaitAddBlock exGenesis2]) \<and>
   chain exDoubleGenesis = [exGenesis, exGenesis2] \<and>
   body exGenesis = encode exLib exGenesisData \<and> height exGenesis = 0 \<and>
   body exGenesis2 = encode exLib exGenesisData \<and> height exGenesis2 = 1"
proof -
  have p: "Blockchain exLib 1600000000123 =
     (empty_chain, [AwaitValidateChain 1600000000123 (Block exLib exGenesisData) []])"
    by (simp add: Blockchain_pending exGenesisData_def)
  have c: "call_initializeChain exLib 1600000000124 (Blockchain exLib 1600000000123) =
     (empty_chain, [AwaitValidateChain 1600000000123 (Block exLib exGenesisData) [],
                    AwaitValidateChain 1600000000124 (Block exLib exGenesisData) []])"
    by (simp add: p call_initializeChain_def initializeChain_begin_def validateChain_enter_def
        empty_chain_def exGenesisData_def)
  have i: "interleave exLib [0, 1]
       (call_initializeChain exLib 1600000000124 (Blockchain exLib 1600000000123)) =
     (exDoubleGenesis, [AwaitAddBlock exGenesis, AwaitAddBlock exGenesis2])"
    by (simp add: c interleave_def fire_def ex_resume_genesis)
  have "body exGenesis = encode exLib exGenesisData" "height exGenesis = 0"
    "body exGenesis2 = encode exLib exGenesisData" "height exGenesis2 = 1"
    "chain exDoubleGenesis = [exGenesis, exGenesis2]"
    by (simp_all add: exGenesis_def exGenesis2_def exDoubleGenesis_def exLib_def exEncode_def
        exGenesisData_def)
  with p c i show ?thesis by simp
qed

end
